theory Spec2Isabelle
  imports Main "HOL-Library.Sublist"
begin

section \<open>Python strings\<close>

text \<open>
  A Python \<open>str\<close> is a sequence of Unicode code points. The table-of-contents pattern of
  the program contains the bullet U+2022, which is no 8-bit character, so a string is a
  list of code points, each a natural number. \<open>u\<close> reads an ASCII literal.
\<close>

type_synonym pystr = "nat list"

definition u :: "string \<Rightarrow> pystr" where
  "u s = map of_char s"

text \<open>
  \<open>str.isspace\<close> of one character, which is also what \<open>\s\<close> matches in a \<open>str\<close>
  pattern: the ASCII white space 9 to 13 and 28 to 32, and the Unicode white space.
\<close>

definition isspace :: "nat \<Rightarrow> bool" where
  "isspace c = (if c < 128 then (9 \<le> c \<and> c \<le> 13) \<or> (28 \<le> c \<and> c \<le> 32)
     else c = 133 \<or> c = 160 \<or> c = 5760 \<or> (8192 \<le> c \<and> c \<le> 8202)
       \<or> c = 8232 \<or> c = 8233 \<or> c = 8239 \<or> c = 8287 \<or> c = 12288)"

text \<open>
  What \<open>\d\<close> matches in a \<open>str\<close> pattern: the decimal digits of Unicode (category Nd).
  The table belongs to the Unicode database of the interpreter, not to the repository;
  these are the ranges beyond ASCII of Unicode 14. No theorem below depends on which
  characters beyond ASCII the table holds.
\<close>

definition nd_ranges :: "(nat \<times> nat) list" where
  "nd_ranges = [(1632, 1641), (1776, 1785), (1984, 1993), (2406, 2415), (2534, 2543),
     (2662, 2671), (2790, 2799), (2918, 2927), (3046, 3055), (3174, 3183), (3302, 3311),
     (3430, 3439), (3558, 3567), (3664, 3673), (3792, 3801), (3872, 3881), (4160, 4169),
     (4240, 4249), (6112, 6121), (6160, 6169), (6470, 6479), (6608, 6617), (6784, 6793),
     (6800, 6809), (6992, 7001), (7088, 7097), (7232, 7241), (7248, 7257), (42528, 42537),
     (43216, 43225), (43264, 43273), (43472, 43481), (43504, 43513), (43600, 43609),
     (44016, 44025), (65296, 65305), (66720, 66729), (68912, 68921), (69734, 69743),
     (69872, 69881), (69942, 69951), (70096, 70105), (70384, 70393), (70736, 70745),
     (70864, 70873), (71248, 71257), (71360, 71369), (71472, 71481), (71904, 71913),
     (72016, 72025), (72784, 72793), (73040, 73049), (73120, 73129), (92768, 92777),
     (92864, 92873), (93008, 93017), (120782, 120831), (123200, 123209), (123632, 123641),
     (125264, 125273), (130032, 130041)]"

fun in_ranges :: "nat \<Rightarrow> (nat \<times> nat) list \<Rightarrow> bool" where
  "in_ranges c [] = False"
| "in_ranges c ((lo, hi) # rs) = (if lo \<le> c \<and> c \<le> hi then True else in_ranges c rs)"

definition isdecimal :: "nat \<Rightarrow> bool" where
  "isdecimal c = (if c < 128 then 48 \<le> c \<and> c \<le> 57 else in_ranges c nd_ranges)"

text \<open>\<open>s.strip()\<close>: white space removed at both ends.\<close>

definition strip :: "pystr \<Rightarrow> pystr" where
  "strip s = rev (dropWhile isspace (rev (dropWhile isspace s)))"

text \<open>\<open>s.startswith(p)\<close>, and \<open>s.find(sub, start)\<close> with \<open>None\<close> for \<open>-1\<close>.\<close>

fun startswith :: "pystr \<Rightarrow> pystr \<Rightarrow> bool" where
  "startswith s [] = True"
| "startswith [] (p # ps) = False"
| "startswith (x # xs) (p # ps) = (if x = p then startswith xs ps else False)"

fun find0 :: "pystr \<Rightarrow> pystr \<Rightarrow> nat option" where
  "find0 sub [] = (if sub = [] then Some 0 else None)"
| "find0 sub (x # xs) =
     (if startswith (x # xs) sub then Some 0 else map_option Suc (find0 sub xs))"

definition str_find :: "pystr \<Rightarrow> pystr \<Rightarrow> nat \<Rightarrow> nat option" where
  "str_find s sub start =
     (if length s < start then None
      else map_option (\<lambda>i. start + i) (find0 sub (drop start s)))"

text \<open>The slice \<open>s[i:j]\<close> for indices that are not negative.\<close>

definition slice :: "pystr \<Rightarrow> nat \<Rightarrow> nat \<Rightarrow> pystr" where
  "slice s i j = take (j - i) (drop i s)"

text \<open>\<open>s.split('\n')\<close>: one more piece than there are line feeds.\<close>

fun split_nl :: "pystr \<Rightarrow> pystr list" where
  "split_nl [] = [[]]"
| "split_nl (x # xs) =
     (if x = 10 then [] # split_nl xs
      else (case split_nl xs of [] \<Rightarrow> [[x]] | y # ys \<Rightarrow> (x # y) # ys))"

text \<open>
  \<open>s.upper()\<close>, on the characters that the case-insensitive status pattern can capture:
  the ASCII letters, the dotless i (305, to I) and the long s (383, to S); the dotted
  capital I (304) and the Kelvin sign (8490) are upper case already.
\<close>

definition upper_char :: "nat \<Rightarrow> nat" where
  "upper_char c = (if 97 \<le> c \<and> c \<le> 122 then c - 32
     else if c = 305 then 73 else if c = 383 then 83 else c)"

definition upper :: "pystr \<Rightarrow> pystr" where
  "upper s = map upper_char s"

section \<open>The regular expressions of module re\<close>

text \<open>
  The constructs the program's patterns use. \<open>Rep greedy n P\<close> is a character class
  repeated at least \<open>n\<close> times, as many as possible first when greedy (\<open>\s*\<close>, \<open>\d+\<close>,
  \<open>\.{3,}\<close>) and as few as possible first when lazy (\<open>.*?\<close>, \<open>[^\n]+?\<close>);
  \<open>Plus r\<close> is the greedy \<open>(?:r)+\<close>; \<open>LitI p\<close> is the literal \<open>p\<close> under
  \<open>re.IGNORECASE\<close>; \<open>Look r\<close> is the lookahead \<open>(?=r)\<close>; \<open>Eos\<close> is \<open>$\<close>.
\<close>

datatype re =
    Eps
  | Lit nat
  | LitI nat
  | Seq re re
  | Alt re re
  | Rep bool nat "nat \<Rightarrow> bool"
  | Plus re
  | Grp nat re
  | Look re
  | Eos

text \<open>
  A group is recorded as module re records it, by where it starts and where it ends:
  here the text left at its start and the text left at its end.
\<close>

type_synonym span = "pystr \<times> pystr"

type_synonym caps = "nat \<Rightarrow> span option"

definition span_text :: "span \<Rightarrow> pystr" where
  "span_text sp = take (length (fst sp) - length (snd sp)) (fst sp)"

text \<open>
  Which characters an ASCII pattern character matches under \<open>re.IGNORECASE\<close>: both
  cases of a letter and, for i, s and k, the characters that module re treats as their
  case variants (304 and 305; 383; 8490).
\<close>

definition ascii_lower :: "nat \<Rightarrow> nat" where
  "ascii_lower c = (if 65 \<le> c \<and> c \<le> 90 then c + 32 else c)"

definition icase_match :: "nat \<Rightarrow> nat \<Rightarrow> bool" where
  "icase_match p c =
     (if ascii_lower c = ascii_lower p then True
      else if ascii_lower p = 105 then c = 304 \<or> c = 305
      else if ascii_lower p = 115 then c = 383
      else if ascii_lower p = 107 then c = 8490
      else False)"

text \<open>
  The backtracking matcher, as a machine on a stack of what is left to do: \<open>Then r\<close>,
  match \<open>r\<close>; \<open>Mark i s\<close>, close group \<open>i\<close>, which was opened where \<open>s\<close> was left;
  \<open>Again r n\<close>, one more round of \<open>(?:r)+\<close> if the last round, begun where \<open>n\<close>
  characters were left, consumed something, else go on. \<open>run k (g, s)\<close> is the first
  way, in the order of the matcher's preferences, to work the stack \<open>k\<close> off on the text
  \<open>s\<close> with the groups \<open>g\<close>: the groups and the text left at the end, or \<open>None\<close>.
\<close>

datatype frame = Then re | Mark nat pystr | Again re nat

fun wt :: "re \<Rightarrow> nat" where
  "wt (Seq a b) = wt a + wt b + 1"
| "wt (Alt a b) = wt a + wt b + 1"
| "wt (Plus a) = 2 * wt a + 4"
| "wt (Grp i a) = wt a + 2"
| "wt (Look a) = wt a + 1"
| "wt r = 1"

fun fwt :: "nat \<Rightarrow> frame \<Rightarrow> nat" where
  "fwt l (Then r) = wt r"
| "fwt l (Mark i s) = 1"
| "fwt l (Again a n) = (if l < n then 2 * wt a + 5 else 1)"

function run :: "frame list \<Rightarrow> caps \<times> pystr \<Rightarrow> (caps \<times> pystr) option" where
  "run [] st = Some st"
| "run (Then Eps # k) st = run k st"
| "run (Then (Lit c) # k) (g, s) =
     (case s of [] \<Rightarrow> None | x # xs \<Rightarrow> if x = c then run k (g, xs) else None)"
| "run (Then (LitI c) # k) (g, s) =
     (case s of [] \<Rightarrow> None | x # xs \<Rightarrow> if icase_match c x then run k (g, xs) else None)"
| "run (Then (Seq a b) # k) st = run (Then a # Then b # k) st"
| "run (Then (Alt a b) # k) st =
     (case run (Then a # k) st of Some m \<Rightarrow> Some m | None \<Rightarrow> run (Then b # k) st)"
| "run (Then (Rep greedy n P) # k) (g, s) =
     (if greedy then
        (case (case s of [] \<Rightarrow> None
               | x # xs \<Rightarrow> if P x then run (Then (Rep True (n - 1) P) # k) (g, xs) else None) of
           Some m \<Rightarrow> Some m
         | None \<Rightarrow> if n = 0 then run k (g, s) else None)
      else
        (case (if n = 0 then run k (g, s) else None) of
           Some m \<Rightarrow> Some m
         | None \<Rightarrow>
             (case s of [] \<Rightarrow> None
              | x # xs \<Rightarrow> if P x then run (Then (Rep False (n - 1) P) # k) (g, xs) else None)))"
| "run (Then (Plus a) # k) (g, s) = run (Then a # Again a (length s) # k) (g, s)"
| "run (Again a n # k) (g, s) =
     (case (if length s < n then run (Then (Plus a) # k) (g, s) else None) of
        Some m \<Rightarrow> Some m
      | None \<Rightarrow> run k (g, s))"
| "run (Then (Grp i a) # k) (g, s) = run (Then a # Mark i s # k) (g, s)"
| "run (Mark i s0 # k) (g, s) = run k (g(i \<mapsto> (s0, s)), s)"
| "run (Then (Look a) # k) (g, s) =
     (case run [Then a] (g, s) of None \<Rightarrow> None | Some (g', s') \<Rightarrow> run k (g', s))"
| "run (Then Eos # k) (g, s) = (if s = [] \<or> s = [10] then run k (g, s) else None)"
  by pat_completeness auto
termination
  by (relation "inv_image (less_than <*lex*> less_than)
        (\<lambda>(k, g, s). (length s, sum_list (map (fwt (length s)) k)))")
     (auto split: if_splits)

definition no_caps :: caps where
  "no_caps = (\<lambda>i. None)"

text \<open>
  A match of \<open>r\<close> that starts where \<open>s\<close> starts: its groups and the text after it.
  \<open>m.group(i)\<close> is \<open>None\<close> for a group that took no part in the match.
\<close>

definition re_match :: "re \<Rightarrow> pystr \<Rightarrow> (caps \<times> pystr) option" where
  "re_match r s = run [Then r] (no_caps, s)"

text \<open>\<open>re.search\<close>: the match at the leftmost position that has one.\<close>

fun re_search :: "re \<Rightarrow> pystr \<Rightarrow> caps option" where
  "re_search r [] = map_option fst (re_match r [])"
| "re_search r (x # xs) =
     (case re_match r (x # xs) of None \<Rightarrow> re_search r xs | Some (g, s') \<Rightarrow> Some g)"

text \<open>
  \<open>re.sub\<close> with a constant replacement: the matches are replaced from left to right
  and the search goes on where a match ended. After an empty match the next character is
  copied. (No pattern that the program substitutes can match the empty string.)
\<close>

function re_sub :: "re \<Rightarrow> pystr \<Rightarrow> pystr \<Rightarrow> pystr" where
  "re_sub r repl [] = (case re_match r [] of None \<Rightarrow> [] | Some m \<Rightarrow> repl)"
| "re_sub r repl (x # xs) =
     (case re_match r (x # xs) of
        None \<Rightarrow> x # re_sub r repl xs
      | Some (g, s') \<Rightarrow>
          if length s' < length (x # xs) then repl @ re_sub r repl s'
          else repl @ x # re_sub r repl xs)"
  by pat_completeness auto
termination
  by (relation "measure (\<lambda>(r, repl, s). length s)") auto

text \<open>
  \<open>re.findall\<close> for a pattern with two groups: the pair of the groups of every match,
  a group that took no part giving the empty string.
\<close>

definition group_or_empty :: "caps \<Rightarrow> nat \<Rightarrow> pystr" where
  "group_or_empty g i = (case g i of None \<Rightarrow> [] | Some sp \<Rightarrow> span_text sp)"

function re_findall :: "re \<Rightarrow> pystr \<Rightarrow> (pystr \<times> pystr) list" where
  "re_findall r [] =
     (case re_match r [] of None \<Rightarrow> []
      | Some (g, s') \<Rightarrow> [(group_or_empty g 1, group_or_empty g 2)])"
| "re_findall r (x # xs) =
     (case re_match r (x # xs) of
        None \<Rightarrow> re_findall r xs
      | Some (g, s') \<Rightarrow>
          (group_or_empty g 1, group_or_empty g 2)
            # (if length s' < length (x # xs) then re_findall r s' else re_findall r xs))"
  by pat_completeness auto
termination
  by (relation "measure (\<lambda>(r, s). length s)") auto

section \<open>The patterns of the program\<close>

definition seqs :: "re list \<Rightarrow> re" where
  "seqs rs = foldr Seq rs Eps"

definition str :: "string \<Rightarrow> re" where
  "str s = seqs (map Lit (u s))"

definition istr :: "string \<Rightarrow> re" where
  "istr s = seqs (map LitI (u s))"

definition ws_star :: re where
  "ws_star = Rep True 0 isspace"

definition ws_plus :: re where
  "ws_plus = Rep True 1 isspace"

definition digits :: re where
  "digits = Rep True 1 isdecimal"

definition dots3 :: re where
  "dots3 = Rep True 3 (\<lambda>c. c = 46)"

text \<open>Line 20: \<open>\s*\n\s*\.\s*\<close>. Line 22: \<open>-\s*\n\s*\<close>. Line 24: \<open>\s*\n\s*\<close>.
  Line 26: \<open>\s+\<close>.\<close>

definition pat_dot_break :: re where
  "pat_dot_break = seqs [ws_star, Lit 10, ws_star, Lit 46, ws_star]"

definition pat_hyphen_break :: re where
  "pat_hyphen_break = seqs [Lit 45, ws_star, Lit 10, ws_star]"

definition pat_line_break :: re where
  "pat_line_break = seqs [ws_star, Lit 10, ws_star]"

definition pat_spaces :: re where
  "pat_spaces = ws_plus"

text \<open>
  Line 35: \<open>(\d+(?:\.\d+)+)\s+([^\n]+?)\s*\.{3,}\s*\d+\<close>, and line 32, the same after
  \<open>\<bullet>\s*\<close>. Both are compiled with \<open>re.IGNORECASE | re.DOTALL\<close>, which change nothing
  here: the patterns hold no letter and no unescaped dot, and no other character
  matches the bullet (8226) when case is ignored.
\<close>

definition pat_number :: re where
  "pat_number = Seq digits (Plus (Seq (Lit 46) digits))"

definition pat_toc_plain :: re where
  "pat_toc_plain = seqs [Grp 1 pat_number, ws_plus, Grp 2 (Rep False 1 (\<lambda>c. c \<noteq> 10)),
     ws_star, dots3, ws_star, digits]"

definition pat_toc_bullet :: re where
  "pat_toc_bullet = Seq (Lit 8226) (Seq ws_star pat_toc_plain)"

text \<open>Line 39: \<open>\.{3,}\s*\d+\<close>.\<close>

definition pat_leader :: re where
  "pat_leader = seqs [dots3, ws_star, digits]"

text \<open>
  Line 72: \<open>\*\* (FAILED|PASSED|SKIPPED) \*\*\<close>. Line 74, with \<open>re.IGNORECASE\<close>:
  \<open>Policy Value\s*\n\s*(FAILED|PASSED|SKIPPED)\<close>.
\<close>

definition pat_status :: re where
  "pat_status = seqs [str ''** '',
     Grp 1 (Alt (str ''FAILED'') (Alt (str ''PASSED'') (str ''SKIPPED''))), str '' **'']"

definition pat_policy_status :: re where
  "pat_policy_status = seqs [istr ''Policy Value'', ws_star, LitI 10, ws_star,
     Grp 1 (Alt (istr ''FAILED'') (Alt (istr ''PASSED'') (istr ''SKIPPED'')))]"

text \<open>
  Lines 78 to 83, with \<open>re.DOTALL\<close>: \<open>Label\s*(.*?)(?=\s*Stop1|...|\s*$)\<close>, the dot
  matching every character.
\<close>

definition pat_field :: "string \<Rightarrow> string list \<Rightarrow> re" where
  "pat_field label stops = seqs [str label, ws_star, Grp 1 (Rep False 0 (\<lambda>c. True)),
     Look (foldr (\<lambda>t r. Alt (Seq ws_star (str t)) r) stops (Seq ws_star Eos))]"

section \<open>parse_pdf_text_by_toc\<close>

record toc_entry =
  number :: pystr
  description :: pystr

text \<open>A dictionary of the returned list: the keys of the entry and six more.\<close>

record finding = toc_entry +
  type :: pystr
  info :: pystr
  solution :: pystr
  references :: "pystr list"
  auditFile :: pystr
  policyValue :: pystr

text \<open>
  The exceptions: \<open>AttributeError\<close>, a method called on the \<open>None\<close> that
  \<open>m.group(1)\<close> returns for an unset group; \<open>UnicodeEncodeError\<close>, a line printed that
  the encoding of standard output cannot encode.
\<close>

datatype error = AttributeError | UnicodeEncodeError

definition group :: "caps \<Rightarrow> nat \<Rightarrow> error + pystr" where
  "group g i = (case g i of None \<Rightarrow> Inl AttributeError | Some sp \<Rightarrow> Inr (span_text sp))"

text \<open>Lines 20 to 26.\<close>

definition normalize_text :: "pystr \<Rightarrow> pystr" where
  "normalize_text full_text =
     strip (re_sub pat_spaces (u '' '')
       (re_sub pat_line_break (u '' '')
         (re_sub pat_hyphen_break []
           (re_sub pat_dot_break (u ''.'') full_text))))"

text \<open>Lines 29 to 40.\<close>

definition parse_toc :: "pystr \<Rightarrow> toc_entry list" where
  "parse_toc toc_text =
     (let toc_lines = re_findall pat_toc_bullet toc_text;
          toc_lines = (if toc_lines = [] then re_findall pat_toc_plain toc_text else toc_lines)
      in map (\<lambda>(number, description).
               \<lparr>number = strip number, description = strip (re_sub pat_leader [] description)\<rparr>)
             toc_lines)"

text \<open>Lines 49 and 61.\<close>

definition start_string :: "toc_entry \<Rightarrow> pystr" where
  "start_string entry = number entry @ u '' '' @ description entry"

text \<open>
  Lines 46 to 64: where the section of entry \<open>i\<close> starts and ends, \<open>None\<close> when the loop
  skips the entry.
\<close>

definition locate :: "toc_entry list \<Rightarrow> pystr \<Rightarrow> nat \<Rightarrow> (nat \<times> nat) option" where
  "locate toc_entries full_text i =
     (let current_entry = toc_entries ! i in
      case str_find full_text (start_string current_entry) 0 of
        None \<Rightarrow> None
      | Some start_index \<Rightarrow>
          Some (start_index,
            if i + 1 < length toc_entries then
              (let next_entry = toc_entries ! (i + 1) in
               case str_find full_text (start_string next_entry)
                      (start_index + length (start_string current_entry)) of
                 None \<Rightarrow> length full_text
               | Some next_index \<Rightarrow> next_index)
            else length full_text))"

text \<open>An exception ends the evaluation of the expressions that follow.\<close>

definition bind_err :: "error + 'a \<Rightarrow> ('a \<Rightarrow> error + 'b) \<Rightarrow> error + 'b" where
  "bind_err x f = (case x of Inl e \<Rightarrow> Inl e | Inr v \<Rightarrow> f v)"

text \<open>Lines 72 to 75.\<close>

definition status_type :: "pystr \<Rightarrow> error + pystr" where
  "status_type section_content =
     (let status_match = re_search pat_status section_content;
          status_match = (if status_match = None
                          then re_search pat_policy_status section_content
                          else status_match)
      in case status_match of
           None \<Rightarrow> Inr (u ''N/A'')
         | Some g \<Rightarrow> bind_err (group g 1) (\<lambda>w. Inr (upper w)))"

text \<open>\<open>m.group(1).strip() if m else 'N/A'\<close>, and line 91.\<close>

definition field_or_na :: "caps option \<Rightarrow> error + pystr" where
  "field_or_na m =
     (case m of
        None \<Rightarrow> Inr (u ''N/A'')
      | Some g \<Rightarrow> bind_err (group g 1) (\<lambda>w. Inr (strip w)))"

definition references_or_na :: "caps option \<Rightarrow> error + pystr list" where
  "references_or_na m =
     (case m of
        None \<Rightarrow> Inr [u ''N/A'']
      | Some g \<Rightarrow> bind_err (group g 1) (\<lambda>w. Inr (split_nl (strip w))))"

text \<open>Lines 72 to 94: the dictionary built from one section.\<close>

definition extract_fields :: "toc_entry \<Rightarrow> pystr \<Rightarrow> error + finding" where
  "extract_fields current_entry section_content =
     bind_err (status_type section_content) (\<lambda>type_v.
     bind_err (field_or_na
        (re_search (pat_field ''Info'' [''Solution'']) section_content)) (\<lambda>info_v.
     bind_err (field_or_na
        (re_search (pat_field ''Solution'' [''See Also'', ''References''])
           section_content)) (\<lambda>solution_v.
     bind_err (references_or_na
        (re_search (pat_field ''References'' [''Audit File'']) section_content))
        (\<lambda>references_v.
     bind_err (field_or_na
        (re_search (pat_field ''Audit File'' [''Policy Value'']) section_content))
        (\<lambda>audit_v.
     bind_err (field_or_na
        (re_search (pat_field ''Policy Value'' [''Hosts'']) section_content))
        (\<lambda>policy_v.
     Inr \<lparr>number = number current_entry, description = description current_entry,
          type = type_v, info = info_v, solution = solution_v,
          references = references_v, auditFile = audit_v,
          policyValue = policy_v\<rparr>))))))"

text \<open>The text of the warning that line 54 prints before the anchor.\<close>

definition warning :: pystr where
  "warning = [35686, 21578, 65306, 26080, 27861, 22312, 80, 68, 70, 25991, 26412, 20013,
     25214, 21040, 26465, 30446, 65306]"

text \<open>
  \<open>print(s)\<close> writes \<open>s\<close> to standard output, whose encoding the repository does not
  fix: \<open>enc\<close> holds of the characters that this encoding can encode, and a line with
  another character raises \<open>UnicodeEncodeError\<close>. \<open>utf8\<close> is the strict UTF-8 codec,
  which encodes every code point but the surrogates.
\<close>

definition print_line :: "(nat \<Rightarrow> bool) \<Rightarrow> pystr \<Rightarrow> pystr list \<Rightarrow> error + pystr list" where
  "print_line enc s out = (if list_all enc s then Inr (out @ [s]) else Inl UnicodeEncodeError)"

definition utf8 :: "nat \<Rightarrow> bool" where
  "utf8 c = (c < 55296 \<or> 57343 < c)"

text \<open>
  Lines 45 to 96: the loop over the indices of \<open>toc_entries\<close>, on the list \<open>data\<close> and
  on the lines printed so far.
\<close>

function parse_loop ::
  "(nat \<Rightarrow> bool) \<Rightarrow> toc_entry list \<Rightarrow> pystr \<Rightarrow> nat \<Rightarrow> finding list \<times> pystr list
     \<Rightarrow> error + finding list \<times> pystr list" where
  "parse_loop enc toc_entries full_text i (data, out) =
     (if i < length toc_entries then
        (case locate toc_entries full_text i of
           None \<Rightarrow>
             (case print_line enc (warning @ start_string (toc_entries ! i)) out of
                Inl e \<Rightarrow> Inl e
              | Inr out' \<Rightarrow> parse_loop enc toc_entries full_text (Suc i) (data, out'))
         | Some (start_index, end_index) \<Rightarrow>
             (case extract_fields (toc_entries ! i) (slice full_text start_index end_index) of
                Inl e \<Rightarrow> Inl e
              | Inr r \<Rightarrow> parse_loop enc toc_entries full_text (Suc i) (data @ [r], out)))
      else Inr (data, out))"
  by pat_completeness auto
termination
  by (relation "measure (\<lambda>(enc, toc_entries, full_text, i, acc). length toc_entries - i)") auto

text \<open>
  The function, for the encoding \<open>enc\<close> of standard output: the list it returns and the
  lines it prints, or the exception.
\<close>

definition parse_pdf_text_by_toc ::
  "(nat \<Rightarrow> bool) \<Rightarrow> pystr \<Rightarrow> pystr \<Rightarrow> error + finding list \<times> pystr list" where
  "parse_pdf_text_by_toc enc toc_text full_text =
     parse_loop enc (parse_toc toc_text) (normalize_text full_text) 0 ([], [])"

section \<open>Notions and inputs used in the statements\<close>

fun re_sets :: "nat \<Rightarrow> re \<Rightarrow> bool" where
  "re_sets i (Grp j a) = (i = j \<or> re_sets i a)"
| "re_sets i (Seq a b) = (re_sets i a \<or> re_sets i b)"
| "re_sets i (Alt a b) = (re_sets i a \<and> re_sets i b)"
| "re_sets i (Plus a) = re_sets i a"
| "re_sets i r = False"

fun frame_sets :: "nat \<Rightarrow> frame \<Rightarrow> bool" where
  "frame_sets i (Then r) = re_sets i r"
| "frame_sets i (Mark j s) = (i = j)"
| "frame_sets i (Again a n) = False"

definition section_record :: "toc_entry list \<Rightarrow> pystr \<Rightarrow> nat \<Rightarrow> finding option" where
  "section_record toc_entries full_text i =
     (case locate toc_entries full_text i of
        None \<Rightarrow> None
      | Some (start_index, end_index) \<Rightarrow>
          (case extract_fields (toc_entries ! i) (slice full_text start_index end_index) of
             Inl e \<Rightarrow> None
           | Inr r \<Rightarrow> Some r))"

definition warnings_from :: "toc_entry list \<Rightarrow> pystr \<Rightarrow> nat \<Rightarrow> pystr list" where
  "warnings_from toc_entries full_text i =
     map (\<lambda>j. warning @ start_string (toc_entries ! j))
       (filter (\<lambda>j. locate toc_entries full_text j = None) [i..<length toc_entries])"

text \<open>
  The bounds of a section, stated on the text alone. \<open>first_from t w s p\<close>: \<open>p\<close> is the
  first offset from \<open>s\<close> on at which \<open>w\<close> occurs in \<open>t\<close>; \<open>occurs_from t w s\<close>: there is
  one. \<open>section_bounds es t i a b\<close>: \<open>a\<close> is the first occurrence of the anchor of entry
  \<open>i\<close> in the whole text, and \<open>b\<close> is the first occurrence, from the end of that anchor on,
  of the anchor of entry \<open>i + 1\<close>, or the length of the text when \<open>i\<close> is the last entry or
  that anchor does not occur there. \<open>located es t\<close>: the indices of the entries whose
  anchor occurs in the text, in the order of the table of contents.
\<close>

definition first_from :: "pystr \<Rightarrow> pystr \<Rightarrow> nat \<Rightarrow> nat \<Rightarrow> bool" where
  "first_from t w s p =
     (s \<le> p \<and> p \<le> length t \<and> startswith (drop p t) w
      \<and> (\<forall>q. s \<le> q \<and> q < p \<longrightarrow> \<not> startswith (drop q t) w))"

definition occurs_from :: "pystr \<Rightarrow> pystr \<Rightarrow> nat \<Rightarrow> bool" where
  "occurs_from t w s = (\<exists>p. s \<le> p \<and> p \<le> length t \<and> startswith (drop p t) w)"

definition section_bounds :: "toc_entry list \<Rightarrow> pystr \<Rightarrow> nat \<Rightarrow> nat \<Rightarrow> nat \<Rightarrow> bool" where
  "section_bounds es t i a b =
     (first_from t (start_string (es ! i)) 0 a
      \<and> (if i + 1 < length es
             \<and> occurs_from t (start_string (es ! (i + 1))) (a + length (start_string (es ! i)))
          then first_from t (start_string (es ! (i + 1)))
                 (a + length (start_string (es ! i))) b
          else b = length t))"

definition located :: "toc_entry list \<Rightarrow> pystr \<Rightarrow> nat list" where
  "located es t = filter (\<lambda>i. occurs_from t (start_string (es ! i)) 0) [0..<length es]"

definition toc_ab :: pystr where
  "toc_ab = 8226 # u '' 1.1 A ... 1'' @ 10 # 8226 # u '' 1.2 B ... 2''"

definition body_ba :: pystr where
  "body_ba = u ''1.2 B x 1.1 A y''"

definition toc_abc :: pystr where
  "toc_abc = 8226 # u '' 1.1 A ... 1'' @ 10 # 8226 # u '' 1.2 B ... 2''
     @ 10 # 8226 # u '' 1.3 C ... 3''"

definition toc_ac :: pystr where
  "toc_ac = 8226 # u '' 1.1 A ... 1'' @ 10 # 8226 # u '' 1.3 C ... 3''"

definition body_ac :: pystr where
  "body_ac = u ''1.1 A Info x 1.3 C Info y''"

definition body_ac' :: pystr where
  "body_ac' = u ''1.1 A Info x 1.3 C Info z''"

definition toc_item :: pystr where
  "toc_item = 8226 # u '' 1.1 Ensure Test Item ...... 5''"

definition body_item :: pystr where
  "body_item = u ''1.1 Ensure Test Item ** FAILED ** Info Do X. Solution Do Y. References http://a References Audit File cmd --check Policy Value true Hosts host1''"

definition toc_a :: pystr where
  "toc_a = 8226 # u '' 1.1 A ... 1''"

definition body_policy :: pystr where
  "body_policy = u ''1.1 A Policy Value FAILED''"

text \<open>
  A table of contents whose title ends with the lone surrogate U+D800, and a body without
  its anchor.
\<close>

definition toc_sur :: pystr where
  "toc_sur = 8226 # u '' 1.1 A'' @ 55296 # u '' ... 1''"

definition body_x :: pystr where
  "body_x = u ''x''"

text \<open>The records of the entries 1.1 A and 1.3 C on the body \<open>1.1 A Info x 1.3 C Info y\<close>.\<close>

definition records_ac :: "finding list" where
  "records_ac =
     [\<lparr>number = u ''1.1'', description = u ''A'', type = u ''N/A'',
       info = u ''x 1.3 C Info y'', solution = u ''N/A'', references = [u ''N/A''],
       auditFile = u ''N/A'', policyValue = u ''N/A''\<rparr>,
      \<lparr>number = u ''1.3'', description = u ''C'', type = u ''N/A'',
       info = u ''y'', solution = u ''N/A'', references = [u ''N/A''],
       auditFile = u ''N/A'', policyValue = u ''N/A''\<rparr>]"

text \<open>
  The lines of a table of contents. A line of the form that the patterns of lines 32 and 35
  are written for has a number, made of groups of digits with a dot between them; white
  space; a title; white space; a run of dots; white space; and a page number.
  \<open>line_text\<close> is the line without a bullet, \<open>bullet_line sep\<close> the line after a bullet
  and the white space \<open>sep\<close>, and \<open>join_lines\<close> puts a line feed between two lines.
  \<open>well_formed\<close>: the number has at least two groups, each a decimal numeral; the title
  is not empty, lies on one line, neither begins nor ends with white space, does not end
  with a dot and holds no run of three dots; there are at least three dots; the page
  number is a decimal numeral. \<open>entry_of\<close> is the entry that the line stands for.
\<close>

fun has3dots :: "pystr \<Rightarrow> bool" where
  "has3dots (a # b # c # s) = ((a = 46 \<and> b = 46 \<and> c = 46) \<or> has3dots (b # c # s))"
| "has3dots s = False"

record toc_line =
  ln_groups :: "pystr list"
  ln_gap :: pystr
  ln_title :: pystr
  ln_lead :: pystr
  ln_dots :: nat
  ln_trail :: pystr
  ln_page :: pystr

fun dotted :: "pystr list \<Rightarrow> pystr" where
  "dotted [] = []"
| "dotted (d # ds) = d @ concat (map ((#) 46) ds)"

definition ln_number :: "toc_line \<Rightarrow> pystr" where
  "ln_number l = dotted (ln_groups l)"

definition ln_tail :: "toc_line \<Rightarrow> pystr" where
  "ln_tail l = ln_lead l @ replicate (ln_dots l) 46 @ ln_trail l @ ln_page l"

definition line_text :: "toc_line \<Rightarrow> pystr" where
  "line_text l = ln_number l @ ln_gap l @ ln_title l @ ln_tail l"

definition bullet_line :: "pystr \<Rightarrow> toc_line \<Rightarrow> pystr" where
  "bullet_line sep l = 8226 # sep @ line_text l"

definition well_formed :: "toc_line \<Rightarrow> bool" where
  "well_formed l =
     (2 \<le> length (ln_groups l)
      \<and> list_all (\<lambda>d. d \<noteq> [] \<and> list_all isdecimal d) (ln_groups l)
      \<and> ln_gap l \<noteq> [] \<and> list_all isspace (ln_gap l)
      \<and> ln_title l \<noteq> [] \<and> 10 \<notin> set (ln_title l)
      \<and> \<not> isspace (hd (ln_title l)) \<and> \<not> isspace (last (ln_title l))
      \<and> last (ln_title l) \<noteq> 46 \<and> \<not> has3dots (ln_title l)
      \<and> list_all isspace (ln_lead l) \<and> 3 \<le> ln_dots l
      \<and> list_all isspace (ln_trail l)
      \<and> ln_page l \<noteq> [] \<and> list_all isdecimal (ln_page l))"

definition entry_of :: "toc_line \<Rightarrow> toc_entry" where
  "entry_of l = \<lparr>number = ln_number l, description = ln_title l\<rparr>"

fun join_lines :: "pystr list \<Rightarrow> pystr" where
  "join_lines [] = []"
| "join_lines [l] = l"
| "join_lines (l # l' # ls) = l @ 10 # join_lines (l' # ls)"

text \<open>The lines \<open>1.1 A ... 1\<close> and \<open>1.2 B ... 2\<close>, and the two without bullets.\<close>

definition line_a :: toc_line where
  "line_a = \<lparr>ln_groups = [u ''1'', u ''1''], ln_gap = u '' '', ln_title = u ''A'',
      ln_lead = u '' '', ln_dots = 3, ln_trail = u '' '', ln_page = u ''1''\<rparr>"

definition line_b :: toc_line where
  "line_b = \<lparr>ln_groups = [u ''1'', u ''2''], ln_gap = u '' '', ln_title = u ''B'',
      ln_lead = u '' '', ln_dots = 3, ln_trail = u '' '', ln_page = u ''2''\<rparr>"

definition plain_ab :: pystr where
  "plain_ab = u ''1.1 A ... 1'' @ 10 # u ''1.2 B ... 2''"


definition toc_word_plain :: pystr where
  "toc_word_plain = u ''1.1 A ... 5'' @ 10 # u ''x 2.2 B ... 6''"

definition toc_word_bullet :: pystr where
  "toc_word_bullet = 8226 # u '' 1.1 A ... 5'' @ 10 # 8226 # u '' x 2.2 B ... 6''"

definition toc_pair_plain :: pystr where
  "toc_pair_plain = u ''1.1 A ... 5 2.2 B ... 6''"

definition toc_pair_bullet :: pystr where
  "toc_pair_bullet = 8226 # u '' 1.1 A ... 5 2.2 B ... 6''"

text \<open>
  The form of a normalized text: \<open>spaced\<close>, every white-space character is a space
  and no two of them are adjacent; \<open>clean\<close>, moreover none at either end.
\<close>

fun spaced :: "pystr \<Rightarrow> bool" where
  "spaced [] = True"
| "spaced [x] = (if isspace x then x = 32 else True)"
| "spaced (x # y # zs) = ((if isspace x then x = 32 \<and> \<not> isspace y else True) \<and> spaced (y # zs))"

definition clean :: "pystr \<Rightarrow> bool" where
  "clean s = (spaced s \<and> (s = [] \<or> (\<not> isspace (hd s) \<and> \<not> isspace (last s))))"

text \<open>Groups and marks that lie inside a set of characters.\<close>

definition caps_in :: "nat set \<Rightarrow> caps \<Rightarrow> bool" where
  "caps_in A g = (\<forall>i sp. g i = Some sp \<longrightarrow> set (fst sp) \<subseteq> A)"

fun frame_in :: "nat set \<Rightarrow> frame \<Rightarrow> bool" where
  "frame_in A (Mark i s) = (set s \<subseteq> A)"
| "frame_in A f = True"

definition entry_key :: "'a toc_entry_scheme \<Rightarrow> pystr \<times> pystr" where
  "entry_key e = (number e, description e)"

section \<open>Evaluation and basic facts\<close>

declare re_sub.simps [simp del] re_findall.simps [simp del]

lemmas pats = seqs_def str_def istr_def ws_star_def ws_plus_def digits_def dots3_def
  pat_dot_break_def pat_hyphen_break_def pat_line_break_def pat_spaces_def pat_number_def
  pat_toc_plain_def pat_toc_bullet_def pat_leader_def pat_status_def pat_policy_status_def
  pat_field_def

lemmas strs = span_text_def u_def isspace_def isdecimal_def strip_def str_find_def slice_def
  upper_def upper_char_def ascii_lower_def icase_match_def no_caps_def re_match_def
  group_or_empty_def group_def bind_err_def run.simps(7) run.simps(9) re_sub.simps
  re_findall.simps

lemmas prog = normalize_text_def parse_toc_def start_string_def locate_def status_type_def
  field_or_na_def references_or_na_def extract_fields_def parse_pdf_text_by_toc_def
  parse_loop.simps warning_def print_line_def utf8_def

lemma startswith_prefix: "startswith s p \<longleftrightarrow> prefix p s"
  by (induction s p rule: startswith.induct) auto

lemma find0_None: "find0 sub s = None \<longleftrightarrow> (\<forall>k\<le>length s. \<not> startswith (drop k s) sub)"
proof (induction s)
  case Nil
  then show ?case by (cases sub) auto
next
  case (Cons x xs)
  show ?case
  proof
    assume a: "find0 sub (x # xs) = None"
    show "\<forall>k\<le>length (x # xs). \<not> startswith (drop k (x # xs)) sub"
    proof (intro allI impI)
      fix k assume "k \<le> length (x # xs)"
      then show "\<not> startswith (drop k (x # xs)) sub"
        using a Cons by (cases k) (auto split: if_splits)
    qed
  next
    assume a: "\<forall>k\<le>length (x # xs). \<not> startswith (drop k (x # xs)) sub"
    then have "\<not> startswith (x # xs) sub" by (metis drop0 le0)
    moreover have "\<forall>k\<le>length xs. \<not> startswith (drop k xs) sub"
      using a by (metis Suc_le_mono drop_Suc_Cons length_Cons)
    ultimately show "find0 sub (x # xs) = None" using Cons by simp
  qed
qed

lemma find0_Some:
  "find0 sub s = Some i \<Longrightarrow>
     i \<le> length s \<and> startswith (drop i s) sub \<and> (\<forall>j<i. \<not> startswith (drop j s) sub)"
proof (induction s arbitrary: i)
  case Nil
  then show ?case by (auto split: if_splits)
next
  case (Cons x xs)
  show ?case
  proof (cases "startswith (x # xs) sub")
    case True
    with Cons.prems show ?thesis by simp
  next
    case False
    with Cons.prems obtain i' where i': "find0 sub xs = Some i'" "i = Suc i'" by auto
    from Cons.IH[OF i'(1)] False i'(2) show ?thesis
      by (auto simp: less_Suc_eq_0_disj)
  qed
qed

declare run.simps(7) [simp del]

lemma run_rep_Nil:
  "run (Then (Rep greedy n P) # k) (g, []) = (if n = 0 then run k (g, []) else None)"
  by (simp add: run.simps(7) split: option.splits)

lemma run_greedy_Cons:
  "run (Then (Rep True n P) # k) (g, x # xs) =
     (case (if P x then run (Then (Rep True (n - 1) P) # k) (g, xs) else None) of
        Some m \<Rightarrow> Some m
      | None \<Rightarrow> if n = 0 then run k (g, x # xs) else None)"
  by (simp add: run.simps(7) split: option.splits)

lemma run_lazy_Cons:
  "run (Then (Rep False n P) # k) (g, x # xs) =
     (case (if n = 0 then run k (g, x # xs) else None) of
        Some m \<Rightarrow> Some m
      | None \<Rightarrow> if P x then run (Then (Rep False (n - 1) P) # k) (g, xs) else None)"
  by (simp add: run.simps(7) split: option.splits)

lemma run_sets:
  "run k st = Some (g', s') \<Longrightarrow> fst st i \<noteq> None \<or> (\<exists>f\<in>set k. frame_sets i f) \<Longrightarrow> g' i \<noteq> None"
proof (induction k st arbitrary: g' s' rule: run.induct)
  case (7 greedy n P k g s)
  show ?case
  proof (cases s)
    case Nil
    with 7 show ?thesis by (auto simp: run_rep_Nil split: if_splits)
  next
    case (Cons x xs)
    show ?thesis
    proof (cases greedy)
      case True
      with Cons "7.prems" "7.IH"(1)[of x xs g' s'] "7.IH"(2)[of g' s']
      show ?thesis
        by (auto simp: run_greedy_Cons split: if_splits option.splits)
    next
      case False
      with Cons "7.prems" "7.IH"(3)[of g' s'] "7.IH"(4)[of x xs g' s']
      show ?thesis
        by (auto simp: run_lazy_Cons split: if_splits option.splits)
    qed
  qed
next
  case (9 a n k g s)
  then show ?case by (auto split: if_splits option.splits)
next
  case (12 a k g s)
  then show ?case by (fastforce split: if_splits option.splits)
qed (auto split: if_splits option.splits list.splits)

subsection \<open>Normalized text\<close>

lemma run_greedy_end:
  "run [Then (Rep True n P)] (g, s) =
     (if n \<le> length (takeWhile P s) then Some (g, dropWhile P s) else None)"
proof (induction s arbitrary: n)
  case Nil
  then show ?case by (simp add: run_rep_Nil)
next
  case (Cons x xs)
  show ?case by (cases n) (auto simp: run_greedy_Cons Cons)
qed

lemma re_match_spaces:
  "re_match pat_spaces s =
     (case s of [] \<Rightarrow> None
      | x # xs \<Rightarrow> if isspace x then Some (no_caps, dropWhile isspace xs) else None)"
  by (cases s) (simp_all add: re_match_def pat_spaces_def ws_plus_def run_greedy_end)

lemma length_dropWhile_less: "length (dropWhile P xs) < Suc (length xs)"
  by (simp add: length_dropWhile_le le_imp_less_Suc)

lemma re_sub_spaces_Nil: "re_sub pat_spaces r [] = []"
  by (simp add: re_sub.simps re_match_spaces)

lemma re_sub_spaces_Cons:
  "re_sub pat_spaces r (x # xs) =
     (if isspace x then r @ re_sub pat_spaces r (dropWhile isspace xs)
      else x # re_sub pat_spaces r xs)"
  by (simp add: re_sub.simps re_match_spaces length_dropWhile_less)

lemma spaced_Cons_nonspace: "\<not> isspace x \<Longrightarrow> spaced (x # s) = spaced s"
  by (cases s) simp_all

lemma spaced_Cons_space:
  "spaced (32 # s) = ((s = [] \<or> \<not> isspace (hd s)) \<and> spaced s)"
  by (cases s) (auto simp: isspace_def)

lemma re_sub_spaces_hd:
  "s = [] \<or> \<not> isspace (hd s) \<Longrightarrow>
     re_sub pat_spaces [32] s = [] \<or> \<not> isspace (hd (re_sub pat_spaces [32] s))"
  by (cases s) (auto simp: re_sub_spaces_Nil re_sub_spaces_Cons)

lemma spaced_re_sub: "spaced (re_sub pat_spaces [32] s)"
proof (induction s rule: length_induct)
  case (1 s)
  show ?case
  proof (cases s)
    case Nil
    then show ?thesis by (simp add: re_sub_spaces_Nil)
  next
    case (Cons x xs)
    show ?thesis
    proof (cases "isspace x")
      case True
      let ?d = "dropWhile isspace xs"
      have "length ?d < length s" using Cons by (simp add: length_dropWhile_less)
      with 1 have sp: "spaced (re_sub pat_spaces [32] ?d)" by blast
      have "?d = [] \<or> \<not> isspace (hd ?d)" using hd_dropWhile[of isspace xs] by blast
      from re_sub_spaces_hd[OF this] sp True Cons show ?thesis
        by (simp add: re_sub_spaces_Cons spaced_Cons_space)
    next
      case False
      have "spaced (re_sub pat_spaces [32] xs)" using 1 Cons by simp
      with False Cons show ?thesis
        by (simp add: re_sub_spaces_Cons spaced_Cons_nonspace)
    qed
  qed
qed

lemma spaced_tl: "spaced (x # s) \<Longrightarrow> spaced s"
  by (cases s) simp_all

lemma spaced_dropWhile: "spaced s \<Longrightarrow> spaced (dropWhile P s)"
  by (induction s) (auto dest: spaced_tl)

lemma spaced_Cons:
  "spaced (x # s) =
     ((if isspace x then x = 32 \<and> (s = [] \<or> \<not> isspace (hd s)) else True) \<and> spaced s)"
  by (cases s) auto

lemma spaced_take: "spaced s \<Longrightarrow> spaced (take n s)"
proof (induction s arbitrary: n)
  case Nil
  then show ?case by simp
next
  case (Cons x xs)
  show ?case
  proof (cases n)
    case 0
    then show ?thesis by simp
  next
    case (Suc m)
    have "take m xs = [] \<or> hd (take m xs) = hd xs" by (cases m; cases xs) simp_all
    with Cons Suc show ?thesis by (auto simp: spaced_Cons split: if_splits)
  qed
qed

lemma rstrip_take:
  "rev (dropWhile P (rev s)) = take (length s - length (takeWhile P (rev s))) s"
proof -
  have "dropWhile P (rev s) = drop (length (takeWhile P (rev s))) (rev s)"
    by (rule dropWhile_eq_drop)
  then have "rev (dropWhile P (rev s)) = rev (drop (length (takeWhile P (rev s))) (rev s))"
    by simp
  also have "\<dots> = take (length s - length (takeWhile P (rev s))) s"
    by (simp add: rev_drop)
  finally show ?thesis .
qed

lemma rstrip_last:
  "rev (dropWhile P (rev s)) = [] \<or> \<not> P (last (rev (dropWhile P (rev s))))"
proof (cases "dropWhile P (rev s)")
  case Nil
  then show ?thesis by simp
next
  case (Cons y ys)
  then have "\<not> P y" using hd_dropWhile[of P "rev s"] by auto
  with Cons show ?thesis by simp
qed

lemma clean_strip: "spaced s \<Longrightarrow> clean (strip s)"
proof -
  assume s: "spaced s"
  let ?a = "dropWhile isspace s"
  let ?n = "length ?a - length (takeWhile isspace (rev ?a))"
  let ?b = "rev (dropWhile isspace (rev ?a))"
  have b: "?b = take ?n ?a" by (rule rstrip_take)
  have 1: "spaced ?b" unfolding b using s by (intro spaced_take spaced_dropWhile)
  have 2: "?b = [] \<or> \<not> isspace (last ?b)" by (rule rstrip_last)
  have 3: "\<not> isspace (hd ?b)" if ne: "?b \<noteq> []"
  proof -
    from ne b have "take ?n ?a \<noteq> []" by simp
    then have n: "0 < ?n" and a: "?a \<noteq> []" by (auto intro: ccontr)
    from a have "\<not> isspace (hd ?a)" using hd_dropWhile[of isspace s] by blast
    moreover have "hd ?b = hd ?a" unfolding b using n by (simp add: hd_take)
    ultimately show ?thesis by simp
  qed
  from 1 2 3 show ?thesis unfolding clean_def strip_def by blast
qed

lemma clean_normalize: "clean (normalize_text s)"
  unfolding normalize_text_def
  using spaced_re_sub by (auto intro: clean_strip simp: u_def)

lemma spaced_space: "spaced s \<Longrightarrow> c \<in> set s \<Longrightarrow> isspace c \<Longrightarrow> c = 32"
  by (induction s rule: spaced.induct) (auto split: if_splits)

lemma spaced_no_nl: "spaced s \<Longrightarrow> 10 \<notin> set s"
  using spaced_space[of s 10] by (auto simp: isspace_def)

lemma re_sub_id:
  "(\<And>t. suffix t s \<Longrightarrow> re_match r t = None) \<Longrightarrow> re_sub r repl s = s"
proof (induction s)
  case Nil
  then show ?case by (simp add: re_sub.simps)
next
  case (Cons x xs)
  have "re_match r (x # xs) = None" using Cons.prems by blast
  moreover have "re_sub r repl xs = xs"
    using Cons.prems by (intro Cons.IH) (simp add: suffix_Cons)
  ultimately show ?case by (simp add: re_sub.simps)
qed

lemma rep_fail:
  "(\<And>t. suffix t s \<Longrightarrow> run k (g, t) = None) \<Longrightarrow> run (Then (Rep b n P) # k) (g, s) = None"
proof (induction s arbitrary: n)
  case Nil
  then show ?case by (simp add: run_rep_Nil)
next
  case (Cons x xs)
  have 1: "run k (g, x # xs) = None" using Cons.prems by blast
  have 2: "run (Then (Rep b m P) # k) (g, xs) = None" for m
    using Cons.prems by (intro Cons.IH) (simp add: suffix_Cons)
  show ?case using 1 2 by (cases b) (simp_all add: run_greedy_Cons run_lazy_Cons)
qed

lemma lit_fail: "c \<notin> set s \<Longrightarrow> run (Then (Lit c) # k) (g, s) = None"
  by (cases s) auto

lemma no_nl_suffix: "10 \<notin> set s \<Longrightarrow> suffix t s \<Longrightarrow> 10 \<notin> set t"
  by (meson set_mono_suffix subsetD)

lemma ws_nl_fail:
  "10 \<notin> set s \<Longrightarrow> run (Then ws_star # Then (Seq (Lit 10) r) # k) (g, s) = None"
  unfolding ws_star_def
proof (rule rep_fail)
  fix t assume "10 \<notin> set s" "suffix t s"
  then have "10 \<notin> set t" by (rule no_nl_suffix)
  then show "run (Then (Seq (Lit 10) r) # k) (g, t) = None" by (cases t) auto
qed

lemma no_nl_dot_break: "10 \<notin> set s \<Longrightarrow> re_match pat_dot_break s = None"
  by (simp add: re_match_def pat_dot_break_def seqs_def ws_nl_fail)

lemma no_nl_line_break: "10 \<notin> set s \<Longrightarrow> re_match pat_line_break s = None"
  by (simp add: re_match_def pat_line_break_def seqs_def ws_nl_fail)

lemma no_nl_hyphen_break: "10 \<notin> set s \<Longrightarrow> re_match pat_hyphen_break s = None"
  by (cases s) (simp_all add: re_match_def pat_hyphen_break_def seqs_def ws_nl_fail)

lemma re_sub_spaces_id: "spaced s \<Longrightarrow> re_sub pat_spaces [32] s = s"
proof (induction s rule: spaced.induct)
  case 1
  then show ?case by (simp add: re_sub_spaces_Nil)
next
  case (2 x)
  then show ?case by (auto simp: re_sub_spaces_Cons re_sub_spaces_Nil split: if_splits)
next
  case (3 x y zs)
  then show ?case by (auto simp: re_sub_spaces_Cons split: if_splits)
qed

lemma strip_id: "s = [] \<or> (\<not> isspace (hd s) \<and> \<not> isspace (last s)) \<Longrightarrow> strip s = s"
proof (cases s)
  case Nil
  then show ?thesis by (simp add: strip_def)
next
  case (Cons x xs)
  assume "s = [] \<or> (\<not> isspace (hd s) \<and> \<not> isspace (last s))"
  with Cons have h: "\<not> isspace x" and l: "\<not> isspace (last s)" by auto
  from h Cons have 1: "dropWhile isspace s = s" by simp
  obtain y ys where r: "rev s = y # ys" using Cons by (cases "rev s") auto
  then have "y = last s" using Cons by (metis hd_rev list.sel(1) list.distinct(1))
  with l have "\<not> isspace y" by simp
  then have "dropWhile isspace (y # ys) = y # ys" by simp
  then have "dropWhile isspace (rev s) = rev s" by (simp only: r)
  with 1 show ?thesis by (simp add: strip_def)
qed

lemma normalize_clean: "clean s \<Longrightarrow> normalize_text s = s"
proof -
  assume c: "clean s"
  then have sp: "spaced s" by (simp add: clean_def)
  then have nl: "10 \<notin> set s" by (rule spaced_no_nl)
  have 1: "re_sub pat_dot_break (u ''.'') s = s"
    using no_nl_dot_break no_nl_suffix[OF nl] by (intro re_sub_id) blast
  have 2: "re_sub pat_hyphen_break [] s = s"
    using no_nl_hyphen_break no_nl_suffix[OF nl] by (intro re_sub_id) blast
  have 3: "re_sub pat_line_break (u '' '') s = s"
    using no_nl_line_break no_nl_suffix[OF nl] by (intro re_sub_id) blast
  have 4: "re_sub pat_spaces (u '' '') s = s"
    using re_sub_spaces_id[OF sp] by (simp add: u_def)
  have 5: "strip s = s" using c by (intro strip_id) (simp add: clean_def)
  show ?thesis by (simp add: normalize_text_def 1 2 3 4 5)
qed

subsection \<open>Groups and the loop\<close>

lemma re_search_Some:
  "re_search r s = Some g \<Longrightarrow> \<exists>t s'. suffix t s \<and> re_match r t = Some (g, s')"
proof (induction s)
  case Nil
  then show ?case by auto
next
  case (Cons x xs)
  show ?case
  proof (cases "re_match r (x # xs)")
    case None
    with Cons obtain t s' where "suffix t xs" "re_match r t = Some (g, s')" by auto
    then show ?thesis by (meson suffix_Cons)
  next
    case (Some m)
    with Cons.prems have "re_match r (x # xs) = Some (g, snd m)" by (cases m) auto
    then show ?thesis by blast
  qed
qed

lemma re_search_sets:
  assumes "re_search r s = Some g" "re_sets i r"
  shows "\<exists>sp. g i = Some sp"
proof -
  from re_search_Some[OF assms(1)] obtain t s' where "run [Then r] (no_caps, t) = Some (g, s')"
    by (auto simp: re_match_def)
  from run_sets[OF this, of i] assms(2) show ?thesis by auto
qed

lemma re_sets_pat_field: "re_sets 1 (pat_field label stops)"
  by (simp add: pat_field_def seqs_def)

lemma re_sets_pat_status: "re_sets 1 pat_status" "re_sets 1 pat_policy_status"
  by (simp_all add: pat_status_def pat_policy_status_def seqs_def)

lemma field_or_na_ok: "re_sets 1 r \<Longrightarrow> \<exists>w. field_or_na (re_search r s) = Inr w"
  by (auto simp: field_or_na_def group_def bind_err_def split: option.splits dest: re_search_sets)

lemma references_or_na_ok: "re_sets 1 r \<Longrightarrow> \<exists>w. references_or_na (re_search r s) = Inr w"
  by (auto simp: references_or_na_def group_def bind_err_def split: option.splits
      dest: re_search_sets)

lemma status_type_ok: "\<exists>w. status_type s = Inr w"
proof (cases "re_search pat_status s")
  case None
  show ?thesis
  proof (cases "re_search pat_policy_status s")
    case N2: None
    with None show ?thesis by (simp add: status_type_def)
  next
    case (Some g)
    from re_search_sets[OF Some re_sets_pat_status(2)] obtain sp where "g 1 = Some sp" by blast
    with None Some show ?thesis by (simp add: status_type_def group_def bind_err_def)
  qed
next
  case (Some g)
  from re_search_sets[OF Some re_sets_pat_status(1)] obtain sp where "g 1 = Some sp" by blast
  with Some show ?thesis by (simp add: status_type_def group_def bind_err_def)
qed

lemma extract_fields_ok: "\<exists>r. extract_fields e seg = Inr r"
proof -
  obtain t where t: "status_type seg = Inr t" using status_type_ok by blast
  obtain a where a: "field_or_na (re_search (pat_field ''Info'' [''Solution'']) seg) = Inr a"
    using field_or_na_ok[OF re_sets_pat_field] by blast
  obtain b where b: "field_or_na (re_search (pat_field ''Solution'' [''See Also'', ''References'']) seg) = Inr b"
    using field_or_na_ok[OF re_sets_pat_field] by blast
  obtain c where c: "references_or_na (re_search (pat_field ''References'' [''Audit File'']) seg) = Inr c"
    using references_or_na_ok[OF re_sets_pat_field] by blast
  obtain d where d: "field_or_na (re_search (pat_field ''Audit File'' [''Policy Value'']) seg) = Inr d"
    using field_or_na_ok[OF re_sets_pat_field] by blast
  obtain f where f: "field_or_na (re_search (pat_field ''Policy Value'' [''Hosts'']) seg) = Inr f"
    using field_or_na_ok[OF re_sets_pat_field] by blast
  show ?thesis
    by (simp add: extract_fields_def bind_err_def t a b c d f)
qed

lemma section_record_locate:
  "section_record es t i = None \<longleftrightarrow> locate es t i = None"
proof (cases "locate es t i")
  case None
  then show ?thesis by (simp add: section_record_def)
next
  case (Some p)
  obtain a b where p: "p = (a, b)" by (cases p)
  obtain r where "extract_fields (es ! i) (slice t a b) = Inr r"
    using extract_fields_ok by blast
  with Some p show ?thesis by (simp add: section_record_def)
qed

declare parse_loop.simps [simp del]

lemma parse_loop_eq:
  "parse_loop enc es t i (data, out) =
     (if list_all (list_all enc) (warnings_from es t i)
      then Inr (data @ List.map_filter (section_record es t) [i..<length es],
                out @ warnings_from es t i)
      else Inl UnicodeEncodeError)"
proof (induction enc es t i "(data, out)" arbitrary: data out rule: parse_loop.induct)
  case (1 enc es t i data out)
  show ?case
  proof (cases "i < length es")
    case False
    then show ?thesis
      by (simp add: parse_loop.simps[of enc es t i] warnings_from_def List.map_filter_simps)
  next
    case True
    then have upt: "[i..<length es] = i # [Suc i..<length es]" by (simp add: upt_conv_Cons)
    show ?thesis
    proof (cases "locate es t i")
      case None
      then have sr: "section_record es t i = None" by (simp add: section_record_locate)
      let ?w = "warning @ start_string (es ! i)"
      have wf: "warnings_from es t i = ?w # warnings_from es t (Suc i)"
        using None by (simp add: warnings_from_def upt)
      show ?thesis
      proof (cases "list_all enc ?w")
        case False
        with None True show ?thesis
          by (auto simp add: parse_loop.simps[of enc es t i] print_line_def wf)
      next
        case ok: True
        then have p: "print_line enc ?w out = Inr (out @ [?w])" by (simp add: print_line_def)
        from "1.hyps"(1)[OF True None p] None True sr ok p show ?thesis
          by (simp add: parse_loop.simps[of enc es t i] upt wf List.map_filter_simps)
      qed
    next
      case (Some p)
      obtain a b where p: "p = (a, b)" by (cases p)
      obtain r where r: "extract_fields (es ! i) (slice t a b) = Inr r"
        using extract_fields_ok by blast
      have sr: "section_record es t i = Some r" by (simp add: section_record_def Some p r)
      have wf: "warnings_from es t i = warnings_from es t (Suc i)"
        using Some by (simp add: warnings_from_def upt)
      from "1.hyps"(2)[OF True Some[unfolded p] refl r] Some p r True sr show ?thesis
        by (simp add: parse_loop.simps[of enc es t i] upt wf List.map_filter_simps)
    qed
  qed
qed

lemma parse_returns:
  assumes "parse_pdf_text_by_toc enc toc_text full_text = Inr (data, out)"
  shows "data = List.map_filter (section_record (parse_toc toc_text) (normalize_text full_text))
                  [0..<length (parse_toc toc_text)]"
  using assms by (simp add: parse_pdf_text_by_toc_def parse_loop_eq split: if_splits)

lemma parse_toc_ab:
  "parse_toc toc_ab = [\<lparr>number = u ''1.1'', description = u ''A''\<rparr>,
     \<lparr>number = u ''1.2'', description = u ''B''\<rparr>]"
  by (simp add: toc_ab_def pats strs prog)

lemma normalize_body_ba: "normalize_text body_ba = body_ba"
  by (rule normalize_clean) (simp add: clean_def body_ba_def u_def isspace_def)

lemma extract_fields_key:
  "extract_fields e seg = Inr r \<Longrightarrow> entry_key r = entry_key e"
  by (auto simp: extract_fields_def bind_err_def entry_key_def split: sum.splits)

lemma section_record_key:
  "section_record es t i = Some r \<Longrightarrow> entry_key r = entry_key (es ! i)"
  by (auto simp: section_record_def split: option.splits sum.splits dest: extract_fields_key)

lemma map_key_map_filter:
  "map entry_key (List.map_filter (section_record es t) is) =
     map (\<lambda>i. entry_key (es ! i)) (filter (\<lambda>i. locate es t i \<noteq> None) is)"
proof (induction "is")
  case Nil
  then show ?case by (simp add: List.map_filter_simps)
next
  case (Cons i "is")
  show ?case
  proof (cases "section_record es t i")
    case None
    with Cons show ?thesis
      by (simp add: List.map_filter_simps section_record_locate[symmetric])
  next
    case (Some r)
    then have "locate es t i \<noteq> None" using section_record_locate[of es t i] by simp
    with Cons Some section_record_key[OF Some] show ?thesis
      by (simp add: List.map_filter_simps)
  qed
qed

lemma filter_nth_upt:
  "map (\<lambda>i. f (es ! i)) (filter (\<lambda>i. Q (es ! i)) [0..<length es]) = map f (filter Q es)"
proof -
  have "map f (filter Q es) = map f (filter Q (map (nth es) [0..<length es]))"
    by (simp add: map_nth)
  also have "\<dots> = map (\<lambda>i. f (es ! i)) (filter (\<lambda>i. Q (es ! i)) [0..<length es])"
    by (simp add: filter_map comp_def)
  finally show ?thesis by simp
qed

lemma str_find_0: "str_find t sub 0 = find0 sub t"
  by (cases "find0 sub t") (simp_all add: str_find_def)

lemma locate_None:
  "locate es t i = None \<longleftrightarrow> (\<forall>k\<le>length t. \<not> startswith (drop k t) (start_string (es ! i)))"
  by (simp add: locate_def Let_def str_find_0 find0_None[symmetric] split: option.splits)

lemma locate_Some:
  assumes "locate es t i = Some (a, b)"
  shows "a \<le> length t \<and> startswith (drop a t) (start_string (es ! i))
         \<and> (\<forall>j<a. \<not> startswith (drop j t) (start_string (es ! i)))"
proof -
  from assms have "find0 (start_string (es ! i)) t = Some a"
    by (auto simp: locate_def Let_def str_find_0 split: option.splits)
  from find0_Some[OF this] show ?thesis .
qed

lemma locate_cong:
  assumes "es ! i = es' ! i'" "i + 1 < length es \<longleftrightarrow> i' + 1 < length es'"
    "i + 1 < length es \<Longrightarrow> es ! (i + 1) = es' ! (i' + 1)"
  shows "locate es t i = locate es' t i'"
  using assms by (auto simp: locate_def Let_def split: option.splits)

lemma section_record_cong:
  assumes "es ! i = es' ! i'" "i + 1 < length es \<longleftrightarrow> i' + 1 < length es'"
    "i + 1 < length es \<Longrightarrow> es ! (i + 1) = es' ! (i' + 1)"
  shows "section_record es t i = section_record es' t i'"
  using locate_cong[OF assms, of t] assms(1)
  by (auto simp: section_record_def split: option.splits)

lemma parse_toc_abc:
  "parse_toc toc_abc = [\<lparr>number = u ''1.1'', description = u ''A''\<rparr>,
     \<lparr>number = u ''1.2'', description = u ''B''\<rparr>,
     \<lparr>number = u ''1.3'', description = u ''C''\<rparr>]"
  by (simp add: toc_abc_def pats strs prog)

lemma parse_toc_ac:
  "parse_toc toc_ac = [\<lparr>number = u ''1.1'', description = u ''A''\<rparr>,
     \<lparr>number = u ''1.3'', description = u ''C''\<rparr>]"
  by (simp add: toc_ac_def pats strs prog)

lemma normalize_body_ac: "normalize_text body_ac = body_ac"
  by (rule normalize_clean) (simp add: clean_def body_ac_def u_def isspace_def)

lemma normalize_body_ac': "normalize_text body_ac' = body_ac'"
  by (rule normalize_clean) (simp add: clean_def body_ac'_def u_def isspace_def)

lemma parse_abc_body_ac:
  "parse_pdf_text_by_toc utf8 toc_abc body_ac = Inr (records_ac, [warning @ u ''1.2 B''])"
  unfolding parse_pdf_text_by_toc_def parse_toc_abc normalize_body_ac
  by (simp add: body_ac_def records_ac_def pats strs prog)

subsection \<open>The end-to-end example and the text of the groups\<close>

lemma normalize_body_item: "normalize_text body_item = body_item"
  by (rule normalize_clean) (simp add: clean_def body_item_def u_def isspace_def)

lemma parse_toc_item:
  "parse_toc toc_item = [\<lparr>number = u ''1.1'', description = u ''Ensure Test Item''\<rparr>]"
  by (simp add: toc_item_def pats strs prog)

lemma parse_item:
  "parse_pdf_text_by_toc enc toc_item body_item =
     Inr ([\<lparr>number = u ''1.1'', description = u ''Ensure Test Item'', type = u ''FAILED'',
            info = u ''Do X.'', solution = u ''Do Y.'',
            references = [u ''http://a References''], auditFile = u ''cmd --check'',
            policyValue = u ''true''\<rparr>], [])"
  unfolding parse_pdf_text_by_toc_def parse_toc_item normalize_body_item
  by (simp add: body_item_def pats strs prog)

lemma caps_in_upd: "caps_in A g \<Longrightarrow> set s0 \<subseteq> A \<Longrightarrow> caps_in A (g(i \<mapsto> (s0, s)))"
  by (auto simp: caps_in_def)

lemma run_caps_in:
  "run k st = Some (g', s') \<Longrightarrow> set (snd st) \<subseteq> A \<Longrightarrow> caps_in A (fst st)
     \<Longrightarrow> \<forall>f\<in>set k. frame_in A f \<Longrightarrow> caps_in A g'"
proof (induction k st arbitrary: g' s' rule: run.induct)
  case (7 greedy n P k g s)
  show ?case
  proof (cases s)
    case Nil
    with 7 show ?thesis by (auto simp: run_rep_Nil split: if_splits)
  next
    case (Cons x xs)
    show ?thesis
    proof (cases greedy)
      case True
      with Cons "7.prems" "7.IH"(1)[of x xs g' s'] "7.IH"(2)[of g' s']
      show ?thesis
        by (auto simp: run_greedy_Cons split: if_splits option.splits)
    next
      case False
      with Cons "7.prems" "7.IH"(3)[of g' s'] "7.IH"(4)[of x xs g' s']
      show ?thesis
        by (auto simp: run_lazy_Cons split: if_splits option.splits)
    qed
  qed
next
  case (9 a n k g s)
  then show ?case by (auto split: if_splits option.splits)
next
  case (11 i s0 k g s)
  from "11.prems"(1) have r: "run k (g(i \<mapsto> (s0, s)), s) = Some (g', s')" by simp
  have c: "caps_in A (fst (g(i \<mapsto> (s0, s)), s))"
    using "11.prems" by (auto simp: caps_in_def split: if_splits)
  have t: "set (snd (g(i \<mapsto> (s0, s)), s)) \<subseteq> A" using "11.prems" by simp
  have f: "\<forall>f\<in>set k. frame_in A f" using "11.prems" by simp
  show ?case by (rule "11.IH"[OF r t c f])
next
  case (12 a k g s)
  show ?case
  proof (cases "run [Then a] (g, s)")
    case None
    with "12.prems" show ?thesis by simp
  next
    case (Some m)
    obtain g1 s1 where m: "m = (g1, s1)" by (cases m)
    from "12.IH"(1)[OF Some[unfolded m]] "12.prems" have "caps_in A g1" by simp
    with "12.IH"(2)[OF Some[unfolded m] refl, of g' s'] "12.prems" Some m show ?thesis
      by simp
  qed
qed (auto split: if_splits option.splits list.splits)

lemma re_search_caps_in:
  assumes "re_search r s = Some g"
  shows "caps_in (set s) g"
proof -
  from re_search_Some[OF assms] obtain t s' where
    t: "suffix t s" "run [Then r] (no_caps, t) = Some (g, s')"
    by (auto simp: re_match_def)
  have "set t \<subseteq> set s" using t(1) by (rule set_mono_suffix)
  with run_caps_in[OF t(2), of "set s"] show ?thesis
    by (simp add: caps_in_def no_caps_def)
qed

lemma split_nl_single: "10 \<notin> set s \<Longrightarrow> split_nl s = [s]"
  by (induction s) auto

lemma set_strip: "set (strip s) \<subseteq> set s"
proof -
  have "set (dropWhile isspace (rev (dropWhile isspace s))) \<subseteq> set (rev (dropWhile isspace s))"
    by (rule set_dropWhileD[THEN subsetI])
  also have "\<dots> \<subseteq> set s" by (auto dest: set_dropWhileD)
  finally show ?thesis by (simp add: strip_def)
qed

lemma references_single:
  assumes "10 \<notin> set seg" "extract_fields e seg = Inr r"
  shows "length (references r) = 1"
proof -
  let ?m = "re_search (pat_field ''References'' [''Audit File'']) seg"
  have "\<exists>w. references_or_na ?m = Inr [w]"
  proof (cases ?m)
    case None
    then show ?thesis by (simp add: references_or_na_def)
  next
    case (Some g)
    from re_search_sets[OF Some re_sets_pat_field] obtain sp where sp: "g 1 = Some sp" by blast
    from re_search_caps_in[OF Some] sp have "set (fst sp) \<subseteq> set seg"
      unfolding caps_in_def by blast
    then have "set (span_text sp) \<subseteq> set seg"
      unfolding span_text_def by (meson set_take_subset subset_trans)
    with set_strip[of "span_text sp"] assms(1) have "10 \<notin> set (strip (span_text sp))" by blast
    then have "split_nl (strip (span_text sp)) = [strip (span_text sp)]" by (rule split_nl_single)
    with Some sp show ?thesis by (simp add: references_or_na_def group_def bind_err_def)
  qed
  then obtain w where w: "references_or_na ?m = Inr [w]" by blast
  from assms(2) have "references r = [w]"
    by (auto simp: extract_fields_def bind_err_def w split: sum.splits)
  then show ?thesis by simp
qed

lemma section_record_references:
  assumes "10 \<notin> set t" "section_record es t i = Some r"
  shows "length (references r) = 1"
proof -
  from assms(2) obtain a b where "extract_fields (es ! i) (slice t a b) = Inr r"
    by (auto simp: section_record_def split: option.splits sum.splits)
  moreover have "10 \<notin> set (slice t a b)"
    using assms(1) unfolding slice_def by (meson in_set_dropD in_set_takeD)
  ultimately show ?thesis by (rule references_single[rotated])
qed

subsection \<open>The bounds of a section\<close>

lemma first_from_unique: "first_from t w s p \<Longrightarrow> first_from t w s p' \<Longrightarrow> p = p'"
proof (rule ccontr)
  assume a: "first_from t w s p" "first_from t w s p'" "p \<noteq> p'"
  then consider "p < p'" | "p' < p" by linarith
  then show False
  proof cases
    case 1
    with a(1,2) show False unfolding first_from_def by blast
  next
    case 2
    with a(1,2) show False unfolding first_from_def by blast
  qed
qed

lemma first_from_occurs: "first_from t w s p \<Longrightarrow> occurs_from t w s"
  unfolding first_from_def occurs_from_def by blast

lemma str_find_first:
  assumes "str_find t w s = Some p"
  shows "first_from t w s p"
proof -
  from assms have le: "s \<le> length t" by (simp add: str_find_def split: if_splits)
  from assms obtain i where i: "find0 w (drop s t) = Some i" "p = s + i"
    by (auto simp: str_find_def split: if_splits option.splits)
  from find0_Some[OF i(1)] have 1: "i \<le> length t - s" "startswith (drop (i + s) t) w"
    and 2: "\<And>j. j < i \<Longrightarrow> \<not> startswith (drop (j + s) t) w"
    by simp_all
  have "\<not> startswith (drop q t) w" if "s \<le> q" "q < p" for q
    using 2[of "q - s"] that i(2) by simp
  with 1 le i(2) show ?thesis by (simp add: first_from_def add.commute)
qed

lemma str_find_None: "s \<le> length t \<Longrightarrow> str_find t w s = None \<longleftrightarrow> \<not> occurs_from t w s"
proof
  assume le: "s \<le> length t" and n: "str_find t w s = None"
  then have f: "find0 w (drop s t) = None"
    by (simp add: str_find_def split: if_splits option.splits)
  show "\<not> occurs_from t w s"
  proof
    assume "occurs_from t w s"
    then obtain p where p: "s \<le> p" "p \<le> length t" "startswith (drop p t) w"
      unfolding occurs_from_def by blast
    from f have a: "\<forall>k\<le>length (drop s t). \<not> startswith (drop k (drop s t)) w"
      by (simp only: find0_None)
    have "p - s \<le> length (drop s t)" using p by simp
    with a have "\<not> startswith (drop (p - s) (drop s t)) w" by blast
    with p show False by simp
  qed
next
  assume le: "s \<le> length t" and n: "\<not> occurs_from t w s"
  show "str_find t w s = None"
  proof (cases "str_find t w s")
    case None
    then show ?thesis .
  next
    case (Some p)
    from first_from_occurs[OF str_find_first[OF Some]] n show ?thesis by simp
  qed
qed

lemma startswith_length: "startswith s p \<Longrightarrow> length p \<le> length s"
  by (simp add: startswith_prefix prefix_length_le)

lemma locate_bounds: "locate es t i = Some (a, b) \<longleftrightarrow> section_bounds es t i a b"
proof (cases "str_find t (start_string (es ! i)) 0")
  case None
  then have "\<not> occurs_from t (start_string (es ! i)) 0" by (simp add: str_find_None)
  then have "\<not> first_from t (start_string (es ! i)) 0 a" using first_from_occurs by blast
  with None show ?thesis by (simp add: locate_def section_bounds_def)
next
  case (Some a0)
  let ?w = "start_string (es ! i)"
  let ?w' = "start_string (es ! (i + 1))"
  from Some have f0: "first_from t ?w 0 a0" by (rule str_find_first)
  have fa: "first_from t ?w 0 a \<longleftrightarrow> a = a0"
    using f0 first_from_unique by blast
  from f0 have "startswith (drop a0 t) ?w" "a0 \<le> length t" by (simp_all add: first_from_def)
  then have le: "a0 + length ?w \<le> length t" using startswith_length[of "drop a0 t" ?w] by simp
  show ?thesis
  proof (cases "i + 1 < length es")
    case False
    with Some fa show ?thesis by (auto simp: locate_def section_bounds_def)
  next
    case True
    show ?thesis
    proof (cases "str_find t ?w' (a0 + length ?w)")
      case None
      then have "\<not> occurs_from t ?w' (a0 + length ?w)" using le by (simp add: str_find_None)
      with None Some True fa show ?thesis by (auto simp: locate_def section_bounds_def)
    next
      case n: (Some n)
      then have fn: "first_from t ?w' (a0 + length ?w) n" by (rule str_find_first)
      then have oc: "occurs_from t ?w' (a0 + length ?w)" by (rule first_from_occurs)
      have "first_from t ?w' (a0 + length ?w) b \<longleftrightarrow> b = n"
        using fn first_from_unique by blast
      with n Some True fa oc show ?thesis by (auto simp: locate_def section_bounds_def)
    qed
  qed
qed

lemma section_bounds_unique:
  "section_bounds es t i a b \<Longrightarrow> section_bounds es t i a' b' \<Longrightarrow> a' = a \<and> b' = b"
  using locate_bounds[of es t i a b] locate_bounds[of es t i a' b'] by simp

lemma locate_occurs: "locate es t i \<noteq> None \<longleftrightarrow> occurs_from t (start_string (es ! i)) 0"
  by (simp add: locate_None occurs_from_def)

lemma located_eq: "located es t = filter (\<lambda>i. locate es t i \<noteq> None) [0..<length es]"
  unfolding located_def locate_occurs by (rule refl)

lemma map_filter_nth:
  "length (List.map_filter h xs) = length (filter (\<lambda>x. h x \<noteq> None) xs)
   \<and> (\<forall>k<length (List.map_filter h xs).
         h (filter (\<lambda>x. h x \<noteq> None) xs ! k) = Some (List.map_filter h xs ! k))"
proof -
  let ?f = "filter (\<lambda>x. h x \<noteq> None) xs"
  have m: "List.map_filter h xs = map (the \<circ> h) ?f" by (simp add: List.map_filter_def)
  have "h (?f ! k) = Some (List.map_filter h xs ! k)" if "k < length ?f" for k
  proof -
    from that have "?f ! k \<in> set ?f" by (rule nth_mem)
    then have "h (?f ! k) \<noteq> None" by simp
    with that show ?thesis by (auto simp: m)
  qed
  then show ?thesis by (simp add: m)
qed

lemma parse_sections:
  assumes "parse_pdf_text_by_toc enc toc_text full_text = Inr (data, out)"
  defines "es \<equiv> parse_toc toc_text" and "t \<equiv> normalize_text full_text"
  shows "length data = length (located es t)"
    and "k < length data \<Longrightarrow>
           \<exists>a b. section_bounds es t (located es t ! k) a b
             \<and> extract_fields (es ! (located es t ! k)) (slice t a b) = Inr (data ! k)"
proof -
  have d: "data = List.map_filter (section_record es t) [0..<length es]"
    unfolding es_def t_def using assms(1) by (rule parse_returns)
  have l: "located es t = filter (\<lambda>i. section_record es t i \<noteq> None) [0..<length es]"
    by (simp add: located_eq section_record_locate)
  from map_filter_nth[of "section_record es t" "[0..<length es]"]
  have n: "length data = length (located es t)"
    and s: "\<And>k. k < length data \<Longrightarrow> section_record es t (located es t ! k) = Some (data ! k)"
    unfolding d[symmetric] l[symmetric] by simp_all
  from n show "length data = length (located es t)" .
  assume "k < length data"
  from s[OF this] obtain a b where "locate es t (located es t ! k) = Some (a, b)"
    and "extract_fields (es ! (located es t ! k)) (slice t a b) = Inr (data ! k)"
    by (auto simp: section_record_def split: option.splits sum.splits)
  then show "\<exists>a b. section_bounds es t (located es t ! k) a b
             \<and> extract_fields (es ! (located es t ! k)) (slice t a b) = Inr (data ! k)"
    by (auto simp: locate_bounds)
qed

subsection \<open>A section without the label References\<close>

lemma run_lits:
  "run (Then (seqs (map Lit w)) # k) (g, s) =
     (if startswith s w then run k (g, drop (length w) s) else None)"
proof (induction w arbitrary: s)
  case Nil
  then show ?case by (simp add: seqs_def)
next
  case (Cons c w)
  have "seqs (map Lit (c # w)) = Seq (Lit c) (seqs (map Lit w))" by (simp add: seqs_def)
  then show ?case using Cons by (cases s) simp_all
qed

lemma re_search_None:
  "(\<And>t. suffix t s \<Longrightarrow> re_match r t = None) \<Longrightarrow> re_search r s = None"
proof (induction s)
  case Nil
  then show ?case by simp
next
  case (Cons x xs)
  have "re_match r (x # xs) = None" using Cons.prems by blast
  moreover have "re_search r xs = None"
    using Cons.prems by (intro Cons.IH) (simp add: suffix_Cons)
  ultimately show ?case by simp
qed

lemma pat_field_needs_label:
  "\<not> startswith s (u label) \<Longrightarrow> re_match (pat_field label stops) s = None"
  by (simp add: re_match_def pat_field_def str_def seqs_def[of "_ # _"] run_lits)

lemma no_label_no_match:
  assumes "\<not> occurs_from seg (u label) 0"
  shows "re_search (pat_field label stops) seg = None"
proof (rule re_search_None)
  fix t assume "suffix t seg"
  then obtain ps where ps: "seg = ps @ t" by (auto simp: suffix_def)
  then have "t = drop (length ps) seg" "length ps \<le> length seg" by simp_all
  with assms have "\<not> startswith t (u label)" unfolding occurs_from_def by blast
  then show "re_match (pat_field label stops) t = None" by (rule pat_field_needs_label)
qed

lemma references_na:
  assumes "\<not> occurs_from seg (u ''References'') 0" "extract_fields e seg = Inr r"
  shows "references r = [u ''N/A'']"
  using assms(2) no_label_no_match[OF assms(1), of "[''Audit File'']"]
  by (auto simp: extract_fields_def bind_err_def references_or_na_def split: sum.splits)

lemma parse_sur_body_x: "parse_pdf_text_by_toc utf8 toc_sur body_x = Inl UnicodeEncodeError"
  by (simp add: toc_sur_def body_x_def pats strs prog)

subsection \<open>The lines of a table of contents\<close>

lemma seqs_Cons: "seqs (r # rs) = Seq r (seqs rs)"
  by (simp add: seqs_def)

lemma seqs_Nil: "seqs [] = Eps"
  by (simp add: seqs_def)

lemma greedy_first:
  assumes "list_all P w" "n \<le> length w" "r = [] \<or> \<not> P (hd r)" "run k (g, r) = Some m"
  shows "run (Then (Rep True n P) # k) (g, w @ r) = Some m"
  using assms(1,2)
proof (induction w arbitrary: n)
  case Nil
  with assms(3,4) show ?case by (cases r) (simp_all add: run_rep_Nil run_greedy_Cons)
next
  case (Cons a w)
  then have "run (Then (Rep True (n - 1) P) # k) (g, w @ r) = Some m" by simp
  with Cons.prems show ?case by (simp add: run_greedy_Cons)
qed

lemma lazy_now:
  "run k (g, s) = Some m \<Longrightarrow> run (Then (Rep False 0 P) # k) (g, s) = Some m"
  by (cases s) (simp_all add: run_rep_Nil run_lazy_Cons)

lemma lazy_skip:
  assumes "list_all P w" "\<And>j. j < length w \<Longrightarrow> n \<le> j \<Longrightarrow> run k (g, drop j w @ r) = None"
  shows "run (Then (Rep False n P) # k) (g, w @ r) =
         run (Then (Rep False (n - length w) P) # k) (g, r)"
  using assms
proof (induction w arbitrary: n)
  case Nil
  then show ?case by simp
next
  case (Cons a w)
  have 0: "n = 0 \<Longrightarrow> run k (g, a # w @ r) = None"
    using Cons.prems(2)[of 0] by simp
  have "run (Then (Rep False (n - 1) P) # k) (g, w @ r) =
        run (Then (Rep False (n - 1 - length w) P) # k) (g, r)"
  proof (rule Cons.IH)
    show "list_all P w" using Cons.prems(1) by simp
    fix j assume "j < length w" "n - 1 \<le> j"
    then show "run k (g, drop j w @ r) = None"
      using Cons.prems(2)[of "Suc j"] by simp
  qed
  with 0 Cons.prems(1) show ?case by (cases "n = 0") (simp_all add: run_lazy_Cons)
qed

lemma rep_short:
  "length (takeWhile P s) < n \<Longrightarrow> run (Then (Rep b n P) # k) (g, s) = None"
proof (induction s arbitrary: n)
  case Nil
  then show ?case by (simp add: run_rep_Nil)
next
  case (Cons x xs)
  show ?case
  proof (cases "P x")
    case True
    with Cons.prems have "length (takeWhile P xs) < n - 1" by simp
    then have "run (Then (Rep b (n - 1) P) # k) (g, xs) = None" by (rule Cons.IH)
    with Cons.prems show ?thesis by (cases b) (simp_all add: run_greedy_Cons run_lazy_Cons)
  next
    case False
    with Cons.prems show ?thesis by (cases b) (simp_all add: run_greedy_Cons run_lazy_Cons)
  qed
qed

lemma rep_fail_run:
  assumes "\<And>j. j \<le> length (takeWhile P s) \<Longrightarrow> run k (g, drop j s) = None"
  shows "run (Then (Rep b n P) # k) (g, s) = None"
  using assms
proof (induction s arbitrary: n)
  case Nil
  then show ?case using Nil[of 0] by (simp add: run_rep_Nil)
next
  case (Cons x xs)
  have 0: "run k (g, x # xs) = None" using Cons.prems[of 0] by simp
  show ?case
  proof (cases "P x")
    case True
    have "run (Then (Rep b (n - 1) P) # k) (g, xs) = None"
    proof (rule Cons.IH)
      fix j assume "j \<le> length (takeWhile P xs)"
      then show "run k (g, drop j xs) = None"
        using Cons.prems[of "Suc j"] True by simp
    qed
    with 0 show ?thesis by (cases b; cases "n = 0") (simp_all add: run_greedy_Cons run_lazy_Cons)
  next
    case False
    with 0 show ?thesis by (cases b; cases "n = 0") (simp_all add: run_greedy_Cons run_lazy_Cons)
  qed
qed

lemma isdecimal_not_space: "isdecimal c \<Longrightarrow> \<not> isspace c"
  by (auto simp: isdecimal_def isspace_def nd_ranges_def split: if_splits)

lemma isdecimal_not_dot: "\<not> isdecimal 46" "\<not> isspace 46" "isspace 10" "\<not> isdecimal 10"
  "\<not> isdecimal 8226" "\<not> isspace 8226"
  by (simp_all add: isdecimal_def isspace_def nd_ranges_def)

lemma seqs_greedy:
  assumes "list_all P w" "n \<le> length w" "r = [] \<or> \<not> P (hd r)"
    "run (Then (seqs rs) # k) (g, r) = Some m"
  shows "run (Then (seqs (Rep True n P # rs)) # k) (g, w @ r) = Some m"
  using greedy_first[OF assms] by (simp add: seqs_Cons)

declare run.simps(9) [simp del]

lemma digits_first:
  assumes "list_all isdecimal w" "w \<noteq> []" "r = [] \<or> \<not> isdecimal (hd r)"
    "run k (g, r) = Some m"
  shows "run (Then digits # k) (g, w @ r) = Some m"
  unfolding digits_def using assms by (intro greedy_first) (simp_all add: Suc_le_eq)

lemma plus_groups:
  assumes "ds \<noteq> []" "list_all (\<lambda>d. d \<noteq> [] \<and> list_all isdecimal d) ds"
    "r = [] \<or> (hd r \<noteq> 46 \<and> \<not> isdecimal (hd r))" "run k (g, r) = Some m"
  shows "run (Then (Plus (Seq (Lit 46) digits)) # k) (g, concat (map ((#) 46) ds) @ r) = Some m"
  using assms(1,2)
proof (induction ds)
  case Nil
  then show ?case by simp
next
  case (Cons d ds)
  let ?X = "Seq (Lit 46) digits"
  let ?rest = "concat (map ((#) 46) ds) @ r"
  let ?n = "length (46 # d @ ?rest)"
  from Cons.prems have d: "d \<noteq> []" "list_all isdecimal d" by simp_all
  have hd: "?rest = [] \<or> \<not> isdecimal (hd ?rest)"
    using assms(3) by (cases ds) (auto simp: isdecimal_not_dot)
  have again: "run (Again ?X ?n # k) (g, ?rest) = Some m"
  proof (cases ds)
    case Nil
    have "run (Then (Plus ?X) # k) (g, r) = None"
      using assms(3) by (cases r) auto
    with Nil assms(4) show ?thesis by (simp add: run.simps(9))
  next
    case (Cons d' ds')
    with Cons.IH Cons.prems have "run (Then (Plus ?X) # k) (g, ?rest) = Some m" by simp
    then show ?thesis by (simp add: run.simps(9))
  qed
  have "run (Then digits # Again ?X ?n # k) (g, d @ ?rest) = Some m"
    using d(2,1) hd again by (rule digits_first)
  then show ?case by simp
qed

lemma number_path:
  assumes "2 \<le> length ds" "list_all (\<lambda>d. d \<noteq> [] \<and> list_all isdecimal d) ds"
    "r = [] \<or> (hd r \<noteq> 46 \<and> \<not> isdecimal (hd r))" "run k (g, r) = Some m"
  shows "run (Then pat_number # k) (g, dotted ds @ r) = Some m"
proof -
  from assms(1) obtain d ds' where ds: "ds = d # ds'" "ds' \<noteq> []"
    by (cases ds; cases "tl ds") auto
  from assms(2) ds have d: "d \<noteq> []" "list_all isdecimal d"
    and ds': "list_all (\<lambda>d. d \<noteq> [] \<and> list_all isdecimal d) ds'" by simp_all
  let ?rest = "concat (map ((#) 46) ds') @ r"
  have 1: "run (Then (Plus (Seq (Lit 46) digits)) # k) (g, ?rest) = Some m"
    using ds(2) ds' assms(3,4) by (rule plus_groups)
  have hd: "?rest = [] \<or> \<not> isdecimal (hd ?rest)"
    using ds(2) by (cases ds') (auto simp: isdecimal_not_dot)
  have "run (Then digits # Then (Plus (Seq (Lit 46) digits)) # k) (g, d @ ?rest) = Some m"
    using d(2,1) hd 1 by (rule digits_first)
  then show ?thesis by (simp add: pat_number_def ds)
qed

lemma has3dots_run: "3 \<le> length (takeWhile (\<lambda>c. c = 46) s) \<Longrightarrow> has3dots s"
proof -
  assume a: "3 \<le> length (takeWhile (\<lambda>c. c = 46) s)"
  then obtain a b c t where s: "s = a # b # c # t"
    by (cases s; cases "tl s"; cases "tl (tl s)") (auto split: if_splits)
  with a show ?thesis by (auto split: if_splits)
qed

lemma has3dots_Cons: "has3dots s \<Longrightarrow> has3dots (x # s)"
  by (cases s; cases "tl s"; cases "tl (tl s)") auto

lemma has3dots_suffix: "suffix t s \<Longrightarrow> has3dots t \<Longrightarrow> has3dots s"
proof (induction s)
  case Nil
  then show ?case by simp
next
  case (Cons x s)
  then show ?case by (auto simp: suffix_Cons intro: has3dots_Cons)
qed

lemma takeWhile_append_stop:
  "w \<noteq> [] \<Longrightarrow> \<not> P (last w) \<Longrightarrow> takeWhile P (w @ r) = takeWhile P w"
  by (intro takeWhile_append1[of "last w"]) auto

lemma ws_star_first:
  assumes "list_all isspace w" "r = [] \<or> \<not> isspace (hd r)" "run k (g, r) = Some m"
  shows "run (Then ws_star # k) (g, w @ r) = Some m"
  unfolding ws_star_def using assms by (intro greedy_first) simp_all

lemma ws_plus_first:
  assumes "list_all isspace w" "w \<noteq> []" "r = [] \<or> \<not> isspace (hd r)"
    "run k (g, r) = Some m"
  shows "run (Then ws_plus # k) (g, w @ r) = Some m"
  unfolding ws_plus_def using assms by (intro greedy_first) (simp_all add: Suc_le_eq)

lemma dots3_first:
  assumes "3 \<le> n" "r = [] \<or> hd r \<noteq> 46" "run k (g, r) = Some m"
  shows "run (Then dots3 # k) (g, replicate n 46 @ r) = Some m"
  unfolding dots3_def using assms by (intro greedy_first) (simp_all add: list_all_iff)

lemma last_suffix: "suffix t s \<Longrightarrow> t \<noteq> [] \<Longrightarrow> last t = last s"
  by (auto simp: suffix_def)

lemma takeWhile_short:
  assumes "t \<noteq> []" "\<not> P (last t)"
  shows "length (takeWhile P t) < length t"
proof -
  have "last t \<in> set t" using assms(1) by simp
  with assms(2) have ne: "takeWhile P t \<noteq> t" by (auto simp: takeWhile_eq_all_conv)
  have "takeWhile P t = take (length (takeWhile P t)) t" by (rule takeWhile_eq_take)
  with ne have "length (takeWhile P t) \<noteq> length t" by (metis take_all order_refl)
  with length_takeWhile_le[of P t] show ?thesis by simp
qed

lemma title_tail_fail:
  assumes "t \<noteq> []" "suffix t title" "\<not> isspace (last title)" "last title \<noteq> 46"
    "\<not> has3dots title"
  shows "run (Then (seqs (ws_star # dots3 # rs)) # k) (g, t @ r) = None"
proof -
  have lt: "last t = last title" using assms(2,1) by (rule last_suffix)
  have tw: "takeWhile isspace (t @ r) = takeWhile isspace t"
    using assms(1,3) lt by (intro takeWhile_append_stop) simp_all
  have "run (Then ws_star # Then (seqs (dots3 # rs)) # k) (g, t @ r) = None"
    unfolding ws_star_def
  proof (rule rep_fail_run)
    fix j assume "j \<le> length (takeWhile isspace (t @ r))"
    then have j: "j < length t"
      using takeWhile_short[of t isspace] assms(1,3) lt by (simp add: tw)
    let ?t = "drop j t"
    have ne: "?t \<noteq> []" using j by simp
    have suf: "suffix ?t title" by (rule suffix_order.trans[OF suffix_drop assms(2)])
    have l: "last ?t = last title" using suf ne by (rule last_suffix)
    have "takeWhile (\<lambda>c. c = 46) (?t @ r) = takeWhile (\<lambda>c. c = 46) ?t"
      using ne l assms(4) by (intro takeWhile_append_stop) simp_all
    moreover have "length (takeWhile (\<lambda>c. c = 46) ?t) < 3"
    proof (rule ccontr)
      assume "\<not> length (takeWhile (\<lambda>c. c = 46) ?t) < 3"
      then have "has3dots ?t" by (intro has3dots_run) simp
      with suf have "has3dots title" by (rule has3dots_suffix)
      with assms(5) show False by simp
    qed
    ultimately have "run (Then dots3 # Then (seqs rs) # k) (g, ?t @ r) = None"
      unfolding dots3_def by (intro rep_short) simp
    with j show "run (Then (seqs (dots3 # rs)) # k) (g, drop j (t @ r)) = None"
      by (simp add: seqs_Cons)
  qed
  then show ?thesis by (simp add: seqs_Cons)
qed

lemma line_match:
  assumes wf: "well_formed l" and rest: "rest = [] \<or> \<not> isdecimal (hd rest)"
  shows "run [Then pat_toc_plain] (g, line_text l @ rest) =
           Some (g(1 \<mapsto> (line_text l @ rest, ln_gap l @ ln_title l @ ln_tail l @ rest),
                   2 \<mapsto> (ln_title l @ ln_tail l @ rest, ln_tail l @ rest)), rest)"
proof -
  let ?r2 = "ln_tail l @ rest"
  let ?r1 = "ln_gap l @ ln_title l @ ?r2"
  let ?g1 = "g(1 \<mapsto> (line_text l @ rest, ?r1))"
  let ?g2 = "?g1(2 \<mapsto> (ln_title l @ ?r2, ?r2))"
  let ?m = "(?g2, rest)"
  from wf have groups: "2 \<le> length (ln_groups l)"
      "list_all (\<lambda>d. d \<noteq> [] \<and> list_all isdecimal d) (ln_groups l)"
    and gap: "ln_gap l \<noteq> []" "list_all isspace (ln_gap l)"
    and title: "ln_title l \<noteq> []" "10 \<notin> set (ln_title l)" "\<not> isspace (hd (ln_title l))"
      "\<not> isspace (last (ln_title l))" "last (ln_title l) \<noteq> 46" "\<not> has3dots (ln_title l)"
    and lead: "list_all isspace (ln_lead l)" and dots: "3 \<le> ln_dots l"
    and trail: "list_all isspace (ln_trail l)"
    and page: "ln_page l \<noteq> []" "list_all isdecimal (ln_page l)"
    by (simp_all add: well_formed_def)
  have hd_page: "isdecimal (hd (ln_page l @ rest))" using page by (cases "ln_page l") simp_all
  have hd_trail: "hd (ln_trail l @ ln_page l @ rest) \<noteq> 46"
  proof (cases "ln_trail l")
    case Nil
    with hd_page show ?thesis using isdecimal_not_dot(1) by auto
  next
    case (Cons a as)
    with trail show ?thesis using isdecimal_not_dot(2) by auto
  qed
  have e_page: "run [Then (seqs [digits])] (?g2, ln_page l @ rest) = Some ?m"
    using digits_first[OF page(2,1) rest, of "[Then Eps]" ?g2 ?m]
    by (simp add: seqs_Cons seqs_Nil)
  have e_trail:
    "run [Then (seqs [ws_star, digits])] (?g2, ln_trail l @ ln_page l @ rest) = Some ?m"
    using ws_star_first[OF trail, of "ln_page l @ rest" "[Then (seqs [digits])]" ?g2 ?m]
      hd_page e_page isdecimal_not_space
    by (simp add: seqs_Cons)
  have e_dots: "run [Then (seqs [dots3, ws_star, digits])]
      (?g2, replicate (ln_dots l) 46 @ ln_trail l @ ln_page l @ rest) = Some ?m"
    using dots3_first[OF dots, of "ln_trail l @ ln_page l @ rest"
        "[Then (seqs [ws_star, digits])]" ?g2 ?m] hd_trail e_trail
    by (simp add: seqs_Cons)
  have hd_dots: "\<not> isspace (hd (replicate (ln_dots l) 46 @ ln_trail l @ ln_page l @ rest))"
    using dots isdecimal_not_dot(2) by (cases "ln_dots l") simp_all
  have e_lead: "run [Then (seqs [ws_star, dots3, ws_star, digits])] (?g2, ?r2) = Some ?m"
    using ws_star_first[OF lead, of "replicate (ln_dots l) 46 @ ln_trail l @ ln_page l @ rest"
        "[Then (seqs [dots3, ws_star, digits])]" ?g2 ?m] hd_dots e_dots
    by (simp add: seqs_Cons ln_tail_def)
  let ?K = "[Mark 2 (ln_title l @ ?r2), Then (seqs [ws_star, dots3, ws_star, digits])]"
  have skip: "run (Then (Rep False 1 (\<lambda>c. c \<noteq> 10)) # ?K) (?g1, ln_title l @ ?r2) =
              run (Then (Rep False (1 - length (ln_title l)) (\<lambda>c. c \<noteq> 10)) # ?K) (?g1, ?r2)"
  proof (rule lazy_skip)
    show "list_all (\<lambda>c. c \<noteq> 10) (ln_title l)" using title(2) by (auto simp: list_all_iff)
    fix j assume j: "j < length (ln_title l)" "1 \<le> j"
    have "run [Then (seqs (ws_star # dots3 # [ws_star, digits]))]
            (?g1(2 \<mapsto> (ln_title l @ ?r2, drop j (ln_title l) @ ?r2)),
             drop j (ln_title l) @ ?r2) = None"
      using j title by (intro title_tail_fail[of _ "ln_title l"]) (simp_all add: suffix_drop)
    then show "run ?K (?g1, drop j (ln_title l) @ ?r2) = None" by simp
  qed
  have "run ?K (?g1, ?r2) = Some ?m" using e_lead by simp
  then have "run (Then (Rep False 0 (\<lambda>c. c \<noteq> 10)) # ?K) (?g1, ?r2) = Some ?m"
    by (rule lazy_now)
  with skip title(1) have
    "run (Then (Rep False 1 (\<lambda>c. c \<noteq> 10)) # ?K) (?g1, ln_title l @ ?r2) = Some ?m"
    by (simp add: Suc_le_eq)
  then have e_title:
    "run [Then (seqs [Grp 2 (Rep False 1 (\<lambda>c. c \<noteq> 10)), ws_star, dots3, ws_star, digits])]
       (?g1, ln_title l @ ?r2) = Some ?m"
    by (simp add: seqs_Cons)
  have hd_title: "\<not> isspace (hd (ln_title l @ ?r2))" using title(1,3) by simp
  have e_gap:
    "run [Then (seqs [ws_plus, Grp 2 (Rep False 1 (\<lambda>c. c \<noteq> 10)), ws_star, dots3,
                       ws_star, digits])] (?g1, ?r1) = Some ?m"
    using ws_plus_first[OF gap(2,1), of "ln_title l @ ?r2"
        "[Then (seqs [Grp 2 (Rep False 1 (\<lambda>c. c \<noteq> 10)), ws_star, dots3, ws_star, digits])]"
        ?g1 ?m] hd_title e_title
    by (simp add: seqs_Cons)
  have hd_gap: "hd ?r1 \<noteq> 46 \<and> \<not> isdecimal (hd ?r1)"
    using gap isdecimal_not_dot(2) isdecimal_not_space by (cases "ln_gap l") auto
  let ?K1 = "[Mark 1 (line_text l @ rest),
              Then (seqs [ws_plus, Grp 2 (Rep False 1 (\<lambda>c. c \<noteq> 10)), ws_star, dots3,
                          ws_star, digits])]"
  have "run ?K1 (g, ?r1) = Some ?m"
    using e_gap by simp
  with number_path[OF groups, of ?r1 ?K1 g ?m] hd_gap
  have "run (Then pat_number # ?K1) (g, dotted (ln_groups l) @ ?r1) = Some ?m" by simp
  then show ?thesis
    by (simp add: pat_toc_plain_def seqs_Cons line_text_def ln_number_def)
qed

lemma span_text_app: "span_text (a @ b, b) = a"
  by (simp add: span_text_def)

lemma dotted_hd:
  assumes "ds \<noteq> []" "list_all (\<lambda>d. d \<noteq> [] \<and> list_all isdecimal d) ds"
  shows "dotted ds \<noteq> [] \<and> isdecimal (hd (dotted ds)) \<and> isdecimal (last (dotted ds))"
  using assms
proof (induction ds rule: rev_induct)
  case Nil
  then show ?case by simp
next
  case (snoc d ds)
  then have d: "d \<noteq> []" "list_all isdecimal d" by simp_all
  then have l: "isdecimal (last d)" "isdecimal (hd d)" by (auto simp: list_all_iff)
  show ?case
  proof (cases ds)
    case Nil
    with d l show ?thesis by simp
  next
    case (Cons e es)
    have "dotted (ds @ [d]) = dotted ds @ 46 # d" using Cons by simp
    with snoc Cons d l show ?thesis by simp
  qed
qed

lemma line_text_hd:
  assumes "well_formed l"
  shows "line_text l \<noteq> []" "isdecimal (hd (line_text l @ rest))"
proof -
  from assms have "ln_groups l \<noteq> []"
    "list_all (\<lambda>d. d \<noteq> [] \<and> list_all isdecimal d) (ln_groups l)"
    by (auto simp: well_formed_def)
  from dotted_hd[OF this] show "line_text l \<noteq> []" "isdecimal (hd (line_text l @ rest))"
    by (simp_all add: line_text_def ln_number_def)
qed

lemma bullet_match:
  assumes wf: "well_formed l" and sep: "list_all isspace sep"
    and rest: "rest = [] \<or> \<not> isdecimal (hd rest)"
  shows "run [Then pat_toc_bullet] (g, bullet_line sep l @ rest) =
           Some (g(1 \<mapsto> (line_text l @ rest, ln_gap l @ ln_title l @ ln_tail l @ rest),
                   2 \<mapsto> (ln_title l @ ln_tail l @ rest, ln_tail l @ rest)), rest)"
proof -
  have "\<not> isspace (hd (line_text l @ rest))"
    using line_text_hd(2)[OF wf] isdecimal_not_space by blast
  then have "run (Then ws_star # [Then pat_toc_plain]) (g, sep @ line_text l @ rest) =
           Some (g(1 \<mapsto> (line_text l @ rest, ln_gap l @ ln_title l @ ln_tail l @ rest),
                   2 \<mapsto> (ln_title l @ ln_tail l @ rest, ln_tail l @ rest)), rest)"
    using line_match[OF wf rest, of g] by (intro ws_star_first[OF sep]) simp_all
  then show ?thesis by (simp add: pat_toc_bullet_def bullet_line_def)
qed

lemma findall_lines:
  assumes nil: "re_match r [] = None" and nl: "\<And>s. re_match r (10 # s) = None"
    and line: "\<And>x rest. x \<in> set xs \<Longrightarrow> rest = [] \<or> hd rest = 10 \<Longrightarrow>
        \<exists>g. re_match r (f x @ rest) = Some (g, rest)
           \<and> group_or_empty g 1 = a x \<and> group_or_empty g 2 = b x"
    and ne: "\<And>x. x \<in> set xs \<Longrightarrow> f x \<noteq> []"
  shows "re_findall r (join_lines (map f xs)) = map (\<lambda>x. (a x, b x)) xs"
  using line ne
proof (induction xs rule: induct_list012)
  case 1
  then show ?case using nil by (simp add: re_findall.simps)
next
  case (2 x)
  from 2(1)[of x "[]"] obtain g where g: "re_match r (f x) = Some (g, [])"
    "group_or_empty g 1 = a x" "group_or_empty g 2 = b x" by auto
  from 2(2)[of x] obtain c cs where c: "f x = c # cs" by (cases "f x") auto
  from g nil show ?case by (simp add: c re_findall.simps)
next
  case (3 x y zs)
  let ?rest = "10 # join_lines (map f (y # zs))"
  from 3(3)[of x ?rest] obtain g where g: "re_match r (f x @ ?rest) = Some (g, ?rest)"
    "group_or_empty g 1 = a x" "group_or_empty g 2 = b x" by auto
  from 3(4)[of x] obtain c cs where c: "f x = c # cs" by (cases "f x") auto
  have ih: "re_findall r (join_lines (map f (y # zs))) = map (\<lambda>x. (a x, b x)) (y # zs)"
    using 3(3,4) by (intro 3(2)) simp_all
  have "re_findall r (f x @ ?rest) = (a x, b x) # re_findall r ?rest"
    using g by (simp add: c re_findall.simps)
  also have "re_findall r ?rest = re_findall r (join_lines (map f (y # zs)))"
    using nl by (simp add: re_findall.simps)
  finally show ?case using ih by simp
qed

lemma plain_nil: "re_match pat_toc_plain [] = None"
  by (simp add: re_match_def pat_toc_plain_def pat_number_def digits_def seqs_Cons run_rep_Nil)

lemma plain_nl: "re_match pat_toc_plain (10 # s) = None"
  by (simp add: re_match_def pat_toc_plain_def pat_number_def digits_def seqs_Cons
      run_greedy_Cons isdecimal_not_dot)

lemma bullet_nil: "re_match pat_toc_bullet [] = None"
  by (simp add: re_match_def pat_toc_bullet_def)

lemma bullet_nl: "re_match pat_toc_bullet (10 # s) = None"
  by (simp add: re_match_def pat_toc_bullet_def)

lemma rest_nl: "rest = [] \<or> hd rest = 10 \<Longrightarrow> rest = [] \<or> \<not> isdecimal (hd rest)"
  using isdecimal_not_dot(4) by auto

lemma line_groups:
  "group_or_empty (g(1 \<mapsto> (line_text l @ rest, ln_gap l @ ln_title l @ ln_tail l @ rest),
                     2 \<mapsto> (ln_title l @ ln_tail l @ rest, ln_tail l @ rest))) 1 = ln_number l"
  "group_or_empty (g(1 \<mapsto> (line_text l @ rest, ln_gap l @ ln_title l @ ln_tail l @ rest),
                     2 \<mapsto> (ln_title l @ ln_tail l @ rest, ln_tail l @ rest))) 2 = ln_title l"
proof -
  have "line_text l @ rest = ln_number l @ (ln_gap l @ ln_title l @ ln_tail l @ rest)"
    by (simp add: line_text_def)
  then show "group_or_empty (g(1 \<mapsto> (line_text l @ rest, ln_gap l @ ln_title l @ ln_tail l @ rest),
                     2 \<mapsto> (ln_title l @ ln_tail l @ rest, ln_tail l @ rest))) 1 = ln_number l"
    by (simp add: group_or_empty_def span_text_app)
  have "ln_title l @ ln_tail l @ rest = ln_title l @ (ln_tail l @ rest)" by simp
  then show "group_or_empty (g(1 \<mapsto> (line_text l @ rest, ln_gap l @ ln_title l @ ln_tail l @ rest),
                     2 \<mapsto> (ln_title l @ ln_tail l @ rest, ln_tail l @ rest))) 2 = ln_title l"
    by (simp add: group_or_empty_def span_text_def)
qed

lemma findall_plain_lines:
  assumes "list_all well_formed ls"
  shows "re_findall pat_toc_plain (join_lines (map line_text ls)) =
           map (\<lambda>l. (ln_number l, ln_title l)) ls"
proof (rule findall_lines[OF plain_nil plain_nl])
  fix l and rest :: pystr
  assume l: "l \<in> set ls" and rest: "rest = [] \<or> hd rest = 10"
  from l assms have wf: "well_formed l" by (simp add: list_all_iff)
  from line_match[OF wf rest_nl[OF rest], of no_caps] line_groups[of no_caps l rest]
  show "\<exists>g. re_match pat_toc_plain (line_text l @ rest) = Some (g, rest)
           \<and> group_or_empty g 1 = ln_number l \<and> group_or_empty g 2 = ln_title l"
    unfolding re_match_def by blast
next
  fix l assume "l \<in> set ls"
  with assms have "well_formed l" by (simp add: list_all_iff)
  then show "line_text l \<noteq> []" by (rule line_text_hd(1))
qed

lemma findall_bullet_lines:
  assumes "list_all well_formed ls" "list_all isspace sep"
  shows "re_findall pat_toc_bullet (join_lines (map (bullet_line sep) ls)) =
           map (\<lambda>l. (ln_number l, ln_title l)) ls"
proof (rule findall_lines[OF bullet_nil bullet_nl])
  fix l and rest :: pystr
  assume l: "l \<in> set ls" and rest: "rest = [] \<or> hd rest = 10"
  from l assms have wf: "well_formed l" by (simp add: list_all_iff)
  from bullet_match[OF wf assms(2) rest_nl[OF rest], of no_caps]
    line_groups[of no_caps l rest]
  show "\<exists>g. re_match pat_toc_bullet (bullet_line sep l @ rest) = Some (g, rest)
           \<and> group_or_empty g 1 = ln_number l \<and> group_or_empty g 2 = ln_title l"
    unfolding re_match_def by blast
next
  fix l assume "l \<in> set ls"
  show "bullet_line sep l \<noteq> []" by (simp add: bullet_line_def)
qed

lemma leader_id: "\<not> has3dots t \<Longrightarrow> re_sub pat_leader [] t = t"
proof (rule re_sub_id)
  fix t' assume a: "\<not> has3dots t" "suffix t' t"
  have "length (takeWhile (\<lambda>c. c = 46) t') < 3"
  proof (rule ccontr)
    assume "\<not> length (takeWhile (\<lambda>c. c = 46) t') < 3"
    then have "has3dots t'" by (intro has3dots_run) simp
    with a(2) have "has3dots t" by (rule has3dots_suffix)
    with a(1) show False by simp
  qed
  then have "run (Then dots3 # [Then (seqs [ws_star, digits])]) (no_caps, t') = None"
    unfolding dots3_def by (rule rep_short)
  then show "re_match pat_leader t' = None"
    by (simp add: re_match_def pat_leader_def seqs_Cons)
qed

lemma entry_clean:
  assumes "well_formed l"
  shows "\<lparr>number = strip (ln_number l),
           description = strip (re_sub pat_leader [] (ln_title l))\<rparr> = entry_of l"
proof -
  from assms have g: "ln_groups l \<noteq> []"
    "list_all (\<lambda>d. d \<noteq> [] \<and> list_all isdecimal d) (ln_groups l)"
    and t: "\<not> isspace (hd (ln_title l))" "\<not> isspace (last (ln_title l))"
      "\<not> has3dots (ln_title l)"
    by (auto simp: well_formed_def)
  from dotted_hd[OF g] have "strip (ln_number l) = ln_number l"
    unfolding ln_number_def by (intro strip_id) (simp add: isdecimal_not_space)
  moreover have "strip (ln_title l) = ln_title l" using t by (intro strip_id) simp
  ultimately show ?thesis using t(3) by (simp add: entry_of_def leader_id)
qed

lemma parse_toc_bullet_lines:
  assumes "list_all well_formed ls" "list_all isspace sep"
  shows "parse_toc (join_lines (map (bullet_line sep) ls)) = map entry_of ls"
proof (cases ls)
  case Nil
  then show ?thesis
    using bullet_nil plain_nil by (simp add: parse_toc_def re_findall.simps)
next
  case (Cons l ls')
  have fa: "re_findall pat_toc_bullet (join_lines (map (bullet_line sep) ls)) =
              map (\<lambda>l. (ln_number l, ln_title l)) ls"
    by (rule findall_bullet_lines[OF assms])
  have ne: "map (\<lambda>l. (ln_number l, ln_title l)) ls \<noteq> []" using Cons by simp
  have "map (\<lambda>(number, description).
               \<lparr>number = strip number, description = strip (re_sub pat_leader [] description)\<rparr>)
          (map (\<lambda>l. (ln_number l, ln_title l)) ls) = map entry_of ls"
    using assms(1) by (induction ls) (simp_all add: entry_clean)
  with ne show ?thesis unfolding parse_toc_def fa Let_def by simp
qed

lemma findall_no_bullet: "8226 \<notin> set s \<Longrightarrow> re_findall pat_toc_bullet s = []"
  by (induction s) (simp_all add: re_findall.simps re_match_def pat_toc_bullet_def)

lemma set_join_lines: "set (join_lines xs) \<subseteq> insert 10 (\<Union>(set ` set xs))"
  by (induction xs rule: induct_list012) auto

lemma set_dotted: "set (dotted ds) \<subseteq> insert 46 (\<Union>(set ` set ds))"
  by (cases ds) auto

lemma line_text_no_bullet:
  assumes "well_formed l" "8226 \<notin> set (ln_title l)"
  shows "8226 \<notin> set (line_text l)"
proof -
  from assms(1) have g: "list_all (\<lambda>d. list_all isdecimal d) (ln_groups l)"
    and w: "list_all isspace (ln_gap l)" "list_all isspace (ln_lead l)"
      "list_all isspace (ln_trail l)" "list_all isdecimal (ln_page l)"
    by (auto simp: well_formed_def list_all_iff)
  from g have "8226 \<notin> set (dotted (ln_groups l))"
    using set_dotted[of "ln_groups l"] isdecimal_not_dot(5) by (auto simp: list_all_iff)
  with w assms(2) isdecimal_not_dot(5,6) show ?thesis
    by (auto simp: line_text_def ln_number_def ln_tail_def list_all_iff)
qed

lemma parse_toc_plain_lines:
  assumes "list_all well_formed ls" "list_all (\<lambda>l. 8226 \<notin> set (ln_title l)) ls"
  shows "parse_toc (join_lines (map line_text ls)) = map entry_of ls"
proof -
  have "8226 \<notin> set (join_lines (map line_text ls))"
    using set_join_lines[of "map line_text ls"] assms line_text_no_bullet
    by (auto simp: list_all_iff)
  then have b: "re_findall pat_toc_bullet (join_lines (map line_text ls)) = []"
    by (rule findall_no_bullet)
  have "map (\<lambda>(number, description).
               \<lparr>number = strip number, description = strip (re_sub pat_leader [] description)\<rparr>)
          (map (\<lambda>l. (ln_number l, ln_title l)) ls) = map entry_of ls"
    using assms(1) by (induction ls) (simp_all add: entry_clean)
  then show ?thesis
    unfolding parse_toc_def b findall_plain_lines[OF assms(1)] Let_def by simp
qed

section \<open>The claims\<close>

subsection \<open>C1: where the search for an anchor starts\<close>

text \<open>
  Claim C1 says that the search for the anchor of an entry after the first starts where
  the anchor located before it ended. The program calls \<open>full_text.find(start_string)\<close>
  with no start position, for every entry. Counterexample to C1: with the TOC entries
  1.1 A and 1.2 B and the body \<open>1.2 B x 1.1 A y\<close>, the anchor of the first entry is
  located at 8 and ends at 13, a search from 13 does not find the anchor of the second
  entry, and the program locates it at 0.
\<close>

theorem anchor_search_counterexample:
  "locate (parse_toc toc_ab) (normalize_text body_ba) 0 = Some (8, 15)
   \<and> 8 + length (start_string (parse_toc toc_ab ! 0)) = 13
   \<and> str_find (normalize_text body_ba) (start_string (parse_toc toc_ab ! 1)) 13 = None
   \<and> locate (parse_toc toc_ab) (normalize_text body_ba) 1 = Some (0, 15)"
  unfolding parse_toc_ab normalize_body_ba
  by (simp add: body_ba_def strs prog)

text \<open>
  Claim C1, as amended: for every call and every entry, whatever its position, the search
  for the anchor starts at position 0 of the normalized body. The entry is skipped exactly
  when its anchor occurs nowhere in the text, its section starts at the first occurrence of
  the anchor in the whole text, and, when the function returns, the records returned are
  those of the entries whose anchor occurs somewhere in the text.
\<close>

theorem anchor_search_from_start:
  fixes toc_text full_text :: pystr
  defines "es \<equiv> parse_toc toc_text" and "t \<equiv> normalize_text full_text"
  shows "(locate es t i = None \<longleftrightarrow>
            (\<forall>k\<le>length t. \<not> startswith (drop k t) (start_string (es ! i))))
     \<and> (\<forall>a b. locate es t i = Some (a, b) \<longrightarrow>
            a \<le> length t \<and> startswith (drop a t) (start_string (es ! i))
            \<and> (\<forall>j<a. \<not> startswith (drop j t) (start_string (es ! i))))
     \<and> (\<forall>data out. parse_pdf_text_by_toc enc toc_text full_text = Inr (data, out) \<longrightarrow>
            map entry_key data =
              map entry_key
                (filter (\<lambda>e. \<exists>k\<le>length t. startswith (drop k t) (start_string e)) es))"
proof (intro conjI)
  show "locate es t i = None \<longleftrightarrow>
          (\<forall>k\<le>length t. \<not> startswith (drop k t) (start_string (es ! i)))"
    by (rule locate_None)
  show "\<forall>a b. locate es t i = Some (a, b) \<longrightarrow>
            a \<le> length t \<and> startswith (drop a t) (start_string (es ! i))
            \<and> (\<forall>j<a. \<not> startswith (drop j t) (start_string (es ! i)))"
    using locate_Some by blast
  have m: "map entry_key (List.map_filter (section_record es t) [0..<length es]) =
          map entry_key
            (filter (\<lambda>e. \<exists>k\<le>length t. startswith (drop k t) (start_string e)) es)"
    unfolding map_key_map_filter
    using filter_nth_upt[of entry_key es
        "\<lambda>e. \<exists>k\<le>length t. startswith (drop k t) (start_string e)"]
    by (simp add: locate_None)
  show "\<forall>data out. parse_pdf_text_by_toc enc toc_text full_text = Inr (data, out) \<longrightarrow>
            map entry_key data =
              map entry_key
                (filter (\<lambda>e. \<exists>k\<le>length t. startswith (drop k t) (start_string e)) es)"
  proof (intro allI impI)
    fix data out
    assume "parse_pdf_text_by_toc enc toc_text full_text = Inr (data, out)"
    then have "data = List.map_filter (section_record es t) [0..<length es]"
      unfolding es_def t_def by (rule parse_returns)
    with m show "map entry_key data =
          map entry_key
            (filter (\<lambda>e. \<exists>k\<le>length t. startswith (drop k t) (start_string e)) es)"
      by simp
  qed
qed

text \<open>
  Witness of C1 as amended: the second entry on the input of the counterexample, and the
  records of the entries 1.1 A, 1.2 B and 1.3 C on the body \<open>1.1 A Info x 1.3 C Info y\<close>,
  with standard output in UTF-8.
\<close>

theorem anchor_search_from_start_witness:
  "locate (parse_toc toc_ab) (normalize_text body_ba) 1 = Some (0, 15)
   \<and> startswith (drop 0 (normalize_text body_ba)) (start_string (parse_toc toc_ab ! 1))
   \<and> parse_pdf_text_by_toc utf8 toc_abc body_ac = Inr (records_ac, [warning @ u ''1.2 B''])
   \<and> map entry_key records_ac =
       map entry_key
         (filter (\<lambda>e. \<exists>k\<le>length (normalize_text body_ac).
                    startswith (drop k (normalize_text body_ac)) (start_string e))
            (parse_toc toc_abc))"
proof -
  have l: "locate (parse_toc toc_ab) (normalize_text body_ba) 1 = Some (0, 15)"
    unfolding parse_toc_ab normalize_body_ba by (simp add: body_ba_def strs prog)
  from anchor_search_from_start[where toc_text = toc_ab and full_text = body_ba and i = 1] l
  have "startswith (drop 0 (normalize_text body_ba)) (start_string (parse_toc toc_ab ! 1))"
    by blast
  moreover from anchor_search_from_start[where toc_text = toc_abc and full_text = body_ac
      and enc = utf8] parse_abc_body_ac
  have "map entry_key records_ac =
       map entry_key
         (filter (\<lambda>e. \<exists>k\<le>length (normalize_text body_ac).
                    startswith (drop k (normalize_text body_ac)) (start_string e))
            (parse_toc toc_abc))"
    by blast
  ultimately show ?thesis using l parse_abc_body_ac by blast
qed

subsection \<open>C4: the order and the number of the records\<close>

text \<open>
  Claim C4: for every input, the records of the list that the function returns are in the
  order of their entries in the table of contents (their numbers and descriptions are a
  subsequence of those of the entries), and the list is no longer than the list of
  entries.
\<close>

theorem records_follow_toc_order:
  assumes "parse_pdf_text_by_toc enc toc_text full_text = Inr (data, out)"
  shows "subseq (map entry_key data) (map entry_key (parse_toc toc_text))
     \<and> length data \<le> length (parse_toc toc_text)"
proof -
  define es where "es = parse_toc toc_text"
  define t where "t = normalize_text full_text"
  have d: "data = List.map_filter (section_record es t) [0..<length es]"
    unfolding es_def t_def using assms by (rule parse_returns)
  have "map entry_key data =
          map (\<lambda>i. entry_key (es ! i)) (filter (\<lambda>i. locate es t i \<noteq> None) [0..<length es])"
    by (simp add: d map_key_map_filter)
  moreover have "subseq (map (\<lambda>i. entry_key (es ! i))
                    (filter (\<lambda>i. locate es t i \<noteq> None) [0..<length es]))
                  (map (\<lambda>i. entry_key (es ! i)) [0..<length es])"
    by (intro subseq_map subseq_filter_left)
  moreover have "map (\<lambda>i. entry_key (es ! i)) [0..<length es] = map entry_key es"
    using filter_nth_upt[of entry_key es "\<lambda>e. True"] by simp
  ultimately have sub: "subseq (map entry_key data) (map entry_key es)" by simp
  then have "length (map entry_key data) \<le> length (map entry_key es)"
    by (rule list_emb_length)
  with sub show ?thesis by (simp add: es_def)
qed

text \<open>
  Witness of C4: the entries 1.1 A, 1.2 B and 1.3 C on the body
  \<open>1.1 A Info x 1.3 C Info y\<close>, with standard output in UTF-8; the function returns the
  records of 1.1 A and 1.3 C.
\<close>

theorem records_follow_toc_order_witness:
  "parse_pdf_text_by_toc utf8 toc_abc body_ac = Inr (records_ac, [warning @ u ''1.2 B''])
   \<and> subseq (map entry_key records_ac) (map entry_key (parse_toc toc_abc))
   \<and> length records_ac \<le> length (parse_toc toc_abc)"
  using records_follow_toc_order[OF parse_abc_body_ac] parse_abc_body_ac by simp

subsection \<open>C3: what a record depends on\<close>

text \<open>
  Claim C3 says that a record depends only on the text from the anchor of its entry to the
  next anchor that is located. Counterexample to C3: with the entries 1.1 A, 1.2 B and 1.3 C
  and two bodies that lack the anchor of 1.2 B, are equal up to the anchor of 1.3 C, which
  is located at 13 in both, and differ after it, the records of 1.1 A differ.
\<close>

theorem next_anchor_counterexample:
  "slice (normalize_text body_ac) 0 13 = slice (normalize_text body_ac') 0 13
   \<and> locate (parse_toc toc_abc) (normalize_text body_ac) 2 = Some (13, 25)
   \<and> locate (parse_toc toc_abc) (normalize_text body_ac') 2 = Some (13, 25)
   \<and> map info (fst (projr (parse_pdf_text_by_toc utf8 toc_abc body_ac))) =
        [u ''x 1.3 C Info y'', u ''y'']
   \<and> map info (fst (projr (parse_pdf_text_by_toc utf8 toc_abc body_ac'))) =
        [u ''x 1.3 C Info z'', u ''z'']"
  unfolding parse_pdf_text_by_toc_def parse_toc_abc normalize_body_ac normalize_body_ac'
  by (simp add: body_ac_def body_ac'_def pats strs prog)

text \<open>
  Claim C3, as amended: there is one function \<open>F\<close> of an entry and a section such that,
  for every input on which the function returns, the records returned are as many as the
  entries whose anchor occurs in the normalized body and, in the order of the table of
  contents, the \<open>k\<close>-th record is \<open>F\<close> of the \<open>k\<close>-th such entry and of the slice of the
  normalized body between the bounds of its section: from the first occurrence of the
  anchor of the entry to the first occurrence, after the end of that anchor, of the anchor
  of the entry that follows it in the table of contents, or to the end of the text when
  that anchor does not occur there or the entry is the last one. These bounds are stated by
  \<open>section_bounds\<close> on the text alone, and they are the only ones. No other text has a
  part in the record.
\<close>

theorem record_from_own_section:
  "\<exists>F. \<forall>enc toc_text full_text data out.
      parse_pdf_text_by_toc enc toc_text full_text = Inr (data, out) \<longrightarrow>
        length data = length (located (parse_toc toc_text) (normalize_text full_text))
        \<and> (\<forall>k<length data. \<exists>a b.
              section_bounds (parse_toc toc_text) (normalize_text full_text)
                (located (parse_toc toc_text) (normalize_text full_text) ! k) a b
            \<and> (\<forall>a' b'. section_bounds (parse_toc toc_text) (normalize_text full_text)
                  (located (parse_toc toc_text) (normalize_text full_text) ! k) a' b'
                  \<longrightarrow> a' = a \<and> b' = b)
            \<and> data ! k =
                F (parse_toc toc_text
                     ! (located (parse_toc toc_text) (normalize_text full_text) ! k))
                  (slice (normalize_text full_text) a b))"
proof -
  define F where "F = (\<lambda>e seg. projr (extract_fields e seg))"
  have "length data = length (located (parse_toc toc_text) (normalize_text full_text))
        \<and> (\<forall>k<length data. \<exists>a b.
              section_bounds (parse_toc toc_text) (normalize_text full_text)
                (located (parse_toc toc_text) (normalize_text full_text) ! k) a b
            \<and> (\<forall>a' b'. section_bounds (parse_toc toc_text) (normalize_text full_text)
                  (located (parse_toc toc_text) (normalize_text full_text) ! k) a' b'
                  \<longrightarrow> a' = a \<and> b' = b)
            \<and> data ! k =
                F (parse_toc toc_text
                     ! (located (parse_toc toc_text) (normalize_text full_text) ! k))
                  (slice (normalize_text full_text) a b))"
    if p: "parse_pdf_text_by_toc enc toc_text full_text = Inr (data, out)"
    for enc toc_text full_text data out
  proof (intro conjI allI impI)
    show "length data = length (located (parse_toc toc_text) (normalize_text full_text))"
      using p by (rule parse_sections(1))
  next
    fix k assume "k < length data"
    from parse_sections(2)[OF p this] obtain a b
      where sb: "section_bounds (parse_toc toc_text) (normalize_text full_text)
                (located (parse_toc toc_text) (normalize_text full_text) ! k) a b"
        and ex: "extract_fields
                (parse_toc toc_text
                   ! (located (parse_toc toc_text) (normalize_text full_text) ! k))
                (slice (normalize_text full_text) a b) = Inr (data ! k)"
      by blast
    from ex have "data ! k =
                F (parse_toc toc_text
                     ! (located (parse_toc toc_text) (normalize_text full_text) ! k))
                  (slice (normalize_text full_text) a b)"
      by (simp add: F_def)
    with sb section_bounds_unique[OF sb]
    show "\<exists>a b.
              section_bounds (parse_toc toc_text) (normalize_text full_text)
                (located (parse_toc toc_text) (normalize_text full_text) ! k) a b
            \<and> (\<forall>a' b'. section_bounds (parse_toc toc_text) (normalize_text full_text)
                  (located (parse_toc toc_text) (normalize_text full_text) ! k) a' b'
                  \<longrightarrow> a' = a \<and> b' = b)
            \<and> data ! k =
                F (parse_toc toc_text
                     ! (located (parse_toc toc_text) (normalize_text full_text) ! k))
                  (slice (normalize_text full_text) a b)"
      by blast
  qed
  then show ?thesis by (intro exI[of _ F]) blast
qed

text \<open>
  Witness of C3 as amended: the entries 1.1 A, 1.2 B and 1.3 C on the body
  \<open>1.1 A Info x 1.3 C Info y\<close>, with standard output in UTF-8. Two entries are located,
  the first and the third; the section of the first runs from 0 to the end of the text,
  25, and its record is the first record returned.
\<close>

theorem record_from_own_section_witness:
  "parse_pdf_text_by_toc utf8 toc_abc body_ac = Inr (records_ac, [warning @ u ''1.2 B''])
   \<and> located (parse_toc toc_abc) (normalize_text body_ac) = [0, 2]
   \<and> section_bounds (parse_toc toc_abc) (normalize_text body_ac) 0 0 25
   \<and> (\<exists>F. records_ac ! 0 = F (parse_toc toc_abc ! 0) (slice (normalize_text body_ac) 0 25))"
proof -
  have loc: "located (parse_toc toc_abc) (normalize_text body_ac) = [0, 2]"
    unfolding located_eq parse_toc_abc normalize_body_ac
    by (simp add: body_ac_def strs prog upt_rec)
  have "locate (parse_toc toc_abc) (normalize_text body_ac) 0 = Some (0, 25)"
    unfolding parse_toc_abc normalize_body_ac by (simp add: body_ac_def strs prog)
  then have sb: "section_bounds (parse_toc toc_abc) (normalize_text body_ac) 0 0 25"
    by (simp only: locate_bounds)
  have len: "0 < length records_ac" by (simp add: records_ac_def)
  from record_from_own_section obtain F where F:
    "\<And>enc toc_text full_text data out.
      parse_pdf_text_by_toc enc toc_text full_text = Inr (data, out) \<Longrightarrow>
        (\<forall>k<length data. \<exists>a b.
              section_bounds (parse_toc toc_text) (normalize_text full_text)
                (located (parse_toc toc_text) (normalize_text full_text) ! k) a b
            \<and> (\<forall>a' b'. section_bounds (parse_toc toc_text) (normalize_text full_text)
                  (located (parse_toc toc_text) (normalize_text full_text) ! k) a' b'
                  \<longrightarrow> a' = a \<and> b' = b)
            \<and> data ! k =
                F (parse_toc toc_text
                     ! (located (parse_toc toc_text) (normalize_text full_text) ! k))
                  (slice (normalize_text full_text) a b))"
    by blast
  from F[OF parse_abc_body_ac, rule_format, OF len] obtain a b
    where u: "\<And>a' b'. section_bounds (parse_toc toc_abc) (normalize_text body_ac)
                  (located (parse_toc toc_abc) (normalize_text body_ac) ! 0) a' b'
                  \<Longrightarrow> a' = a \<and> b' = b"
      and r: "records_ac ! 0 =
                F (parse_toc toc_abc ! (located (parse_toc toc_abc) (normalize_text body_ac) ! 0))
                  (slice (normalize_text body_ac) a b)"
    by blast
  from u[of 0 25] sb have "a = 0 \<and> b = 25" by (simp add: loc)
  with r have "records_ac ! 0 = F (parse_toc toc_abc ! 0) (slice (normalize_text body_ac) 0 25)"
    by (simp add: loc)
  then have "\<exists>F. records_ac ! 0 = F (parse_toc toc_abc ! 0) (slice (normalize_text body_ac) 0 25)"
    by blast
  with parse_abc_body_ac loc sb show ?thesis by blast
qed

subsection \<open>C5: an entry whose anchor is missing\<close>

text \<open>
  Claim C5 says that an entry whose anchor is missing raises no exception and leaves every
  other record as it would be without that entry. Counterexample to C5: with the body
  \<open>1.1 A Info x 1.3 C Info y\<close>, the record of 1.1 A has the info \<open>x 1.3 C Info y\<close> when
  the table of contents lists the missing 1.2 B between 1.1 A and 1.3 C, and the info \<open>x\<close>
  when it does not; and with a table of contents whose only title ends with a lone
  surrogate, the body \<open>x\<close> and standard output in UTF-8, the \<open>print\<close> of line 54 raises
  \<open>UnicodeEncodeError\<close>.
\<close>

theorem missing_anchor_counterexample:
  "map info (fst (projr (parse_pdf_text_by_toc utf8 toc_abc body_ac))) =
     [u ''x 1.3 C Info y'', u ''y'']
   \<and> map info (fst (projr (parse_pdf_text_by_toc utf8 toc_ac body_ac))) = [u ''x'', u ''y'']
   \<and> parse_pdf_text_by_toc utf8 toc_sur body_x = Inl UnicodeEncodeError"
  unfolding parse_sur_body_x
  unfolding parse_pdf_text_by_toc_def parse_toc_abc parse_toc_ac normalize_body_ac
  by (simp add: body_ac_def pats strs prog)

text \<open>
  Claim C5, as amended: when the anchor of an entry \<open>b\<close> occurs nowhere in the text, the
  loop prints a warning for \<open>b\<close>; it raises \<open>UnicodeEncodeError\<close> when standard output
  cannot encode one of the warnings it has to print, and otherwise it raises no exception,
  goes through all the entries and returns the records of the entries that are located and
  the warnings; there is no record for \<open>b\<close>, the records of the entries after \<open>b\<close> and of
  the entries before \<open>b\<close> other than the one just before it are what they are without
  \<open>b\<close>, and the section of the entry just before \<open>b\<close> runs to the end of the text.
\<close>

theorem missing_anchor_drops_entry:
  assumes "\<forall>k\<le>length t. \<not> startswith (drop k t) (start_string b)"
  shows "parse_loop enc (xs @ b # ys) t 0 ([], []) =
           (if list_all (list_all enc) (warnings_from (xs @ b # ys) t 0)
            then Inr (List.map_filter (section_record (xs @ b # ys) t)
                        [0..<length (xs @ b # ys)],
                      warnings_from (xs @ b # ys) t 0)
            else Inl UnicodeEncodeError)
     \<and> warning @ start_string b \<in> set (warnings_from (xs @ b # ys) t 0)
     \<and> section_record (xs @ b # ys) t (length xs) = None
     \<and> (\<forall>j. Suc j < length xs \<longrightarrow>
           section_record (xs @ b # ys) t j = section_record (xs @ ys) t j)
     \<and> (\<forall>j<length ys.
           section_record (xs @ b # ys) t (Suc (length xs + j)) =
           section_record (xs @ ys) t (length xs + j))
     \<and> (\<forall>j. Suc j = length xs \<longrightarrow>
           locate (xs @ b # ys) t j =
           map_option (\<lambda>a. (a, length t)) (str_find t (start_string (xs ! j)) 0))"
proof (intro conjI allI impI)
  show "parse_loop enc (xs @ b # ys) t 0 ([], []) =
           (if list_all (list_all enc) (warnings_from (xs @ b # ys) t 0)
            then Inr (List.map_filter (section_record (xs @ b # ys) t)
                        [0..<length (xs @ b # ys)],
                      warnings_from (xs @ b # ys) t 0)
            else Inl UnicodeEncodeError)"
    by (simp add: parse_loop_eq)
  have l: "locate (xs @ b # ys) t (length xs) = None"
    using assms by (simp add: locate_None)
  then show "section_record (xs @ b # ys) t (length xs) = None"
    by (simp add: section_record_locate)
  have "length xs \<in> set [0..<length (xs @ b # ys)]" by simp
  with l have "length xs \<in> set (filter (\<lambda>j. locate (xs @ b # ys) t j = None)
                            [0..<length (xs @ b # ys)])"
    unfolding set_filter by blast
  then have "warning @ start_string ((xs @ b # ys) ! length xs)
               \<in> set (warnings_from (xs @ b # ys) t 0)"
    unfolding warnings_from_def set_map by (rule imageI)
  then show "warning @ start_string b \<in> set (warnings_from (xs @ b # ys) t 0)"
    by simp
next
  fix j assume "Suc j < length xs"
  then show "section_record (xs @ b # ys) t j = section_record (xs @ ys) t j"
    by (intro section_record_cong) (simp_all add: nth_append)
next
  fix j assume "j < length ys"
  then show "section_record (xs @ b # ys) t (Suc (length xs + j)) =
               section_record (xs @ ys) t (length xs + j)"
    by (intro section_record_cong) (simp_all add: nth_append)
next
  fix j assume j: "Suc j = length xs"
  then have 1: "(xs @ b # ys) ! j = xs ! j" "(xs @ b # ys) ! (j + 1) = b"
    by (simp_all add: nth_append)
  have "find0 (start_string b) (drop n t) = None" for n
  proof -
    have "\<not> startswith (drop k (drop n t)) (start_string b)" for k
    proof (cases "k + n \<le> length t")
      case True
      with assms show ?thesis by (simp add: add.commute)
    next
      case False
      then have "drop k (drop n t) = []" by simp
      moreover have "\<not> startswith [] (start_string b)"
        using assms[rule_format, of "length t"] by simp
      ultimately show ?thesis by simp
    qed
    then show ?thesis by (simp add: find0_None)
  qed
  then have "str_find t (start_string b) n = None" for n
    by (simp add: str_find_def)
  with 1 j show "locate (xs @ b # ys) t j =
           map_option (\<lambda>a. (a, length t)) (str_find t (start_string (xs ! j)) 0)"
    by (auto simp: locate_def Let_def split: option.splits)
qed

text \<open>
  Witness of C5 as amended: the entries 1.1 A, 1.2 B, 1.3 C and 1.4 D on the body
  \<open>1.1 A Info x 1.3 C Info y\<close>, with 1.2 B as the entry whose anchor is missing.
\<close>

theorem missing_anchor_drops_entry_witness:
  "find0 (start_string \<lparr>number = u ''1.2'', description = u ''B''\<rparr>) body_ac = None
   \<and> section_record
         [\<lparr>number = u ''1.1'', description = u ''A''\<rparr>,
          \<lparr>number = u ''1.2'', description = u ''B''\<rparr>,
          \<lparr>number = u ''1.3'', description = u ''C''\<rparr>,
          \<lparr>number = u ''1.4'', description = u ''D''\<rparr>] body_ac 1 = None
   \<and> section_record
         [\<lparr>number = u ''1.1'', description = u ''A''\<rparr>,
          \<lparr>number = u ''1.2'', description = u ''B''\<rparr>,
          \<lparr>number = u ''1.3'', description = u ''C''\<rparr>,
          \<lparr>number = u ''1.4'', description = u ''D''\<rparr>] body_ac 2 =
       section_record
         [\<lparr>number = u ''1.1'', description = u ''A''\<rparr>,
          \<lparr>number = u ''1.3'', description = u ''C''\<rparr>,
          \<lparr>number = u ''1.4'', description = u ''D''\<rparr>] body_ac 1"
proof -
  have f: "find0 (start_string \<lparr>number = u ''1.2'', description = u ''B''\<rparr>) body_ac = None"
    by (simp add: body_ac_def strs prog)
  then have h: "\<forall>k\<le>length body_ac.
      \<not> startswith (drop k body_ac) (start_string \<lparr>number = u ''1.2'', description = u ''B''\<rparr>)"
    by (simp only: find0_None)
  from missing_anchor_drops_entry[OF h,
      of _ "[\<lparr>number = u ''1.1'', description = u ''A''\<rparr>]"
         "[\<lparr>number = u ''1.3'', description = u ''C''\<rparr>,
           \<lparr>number = u ''1.4'', description = u ''D''\<rparr>]"]
  have "section_record
         ([\<lparr>number = u ''1.1'', description = u ''A''\<rparr>]
          @ \<lparr>number = u ''1.2'', description = u ''B''\<rparr>
          # [\<lparr>number = u ''1.3'', description = u ''C''\<rparr>,
             \<lparr>number = u ''1.4'', description = u ''D''\<rparr>]) body_ac
         (length [\<lparr>number = u ''1.1'', description = u ''A''\<rparr>]) = None"
    and "section_record
         ([\<lparr>number = u ''1.1'', description = u ''A''\<rparr>]
          @ \<lparr>number = u ''1.2'', description = u ''B''\<rparr>
          # [\<lparr>number = u ''1.3'', description = u ''C''\<rparr>,
             \<lparr>number = u ''1.4'', description = u ''D''\<rparr>]) body_ac
         (Suc (length [\<lparr>number = u ''1.1'', description = u ''A''\<rparr>] + 0)) =
       section_record
         ([\<lparr>number = u ''1.1'', description = u ''A''\<rparr>]
          @ [\<lparr>number = u ''1.3'', description = u ''C''\<rparr>,
             \<lparr>number = u ''1.4'', description = u ''D''\<rparr>]) body_ac
         (length [\<lparr>number = u ''1.1'', description = u ''A''\<rparr>] + 0)"
    by simp_all
  with f show ?thesis by (simp add: numeral_2_eq_2)
qed

subsection \<open>C6: the status after the label Policy Value\<close>

text \<open>
  Claim C6 says that a section without a bracketed status marker in which the label
  \<open>Policy Value\<close> is followed by a status word gets that word as its type. The pattern of
  line 74 asks for a line feed between the label and the word, and lines 24 and 26 have
  replaced every line feed of the body by a space before: on the body
  \<open>1.1 A Policy Value FAILED\<close> the type of the record is \<open>N/A\<close>, and the word is found
  by the pattern of line 83 only, as the policy value.
\<close>

theorem policy_status_fallback_dead:
  "parse_pdf_text_by_toc enc toc_a body_policy =
     Inr ([\<lparr>number = u ''1.1'', description = u ''A'', type = u ''N/A'',
            info = u ''N/A'', solution = u ''N/A'', references = [u ''N/A''],
            auditFile = u ''N/A'', policyValue = u ''FAILED''\<rparr>], [])"
  by (simp add: toc_a_def body_policy_def pats strs prog)

subsection \<open>C8: normalizing twice\<close>

text \<open>
  Claim C8: the normalization of lines 20 to 26 (the repair of a line break before a dot,
  the removal of a hyphen before a line break, every line break with the white space
  around it to a space, every run of white space to a space and the trim) is idempotent.
\<close>

theorem normalize_text_idempotent:
  "normalize_text (normalize_text s) = normalize_text s"
  by (rule normalize_clean) (rule clean_normalize)

subsection \<open>C2: the end-to-end example\<close>

text \<open>
  Claim C2 says that the example of the specification gives one record whose references
  are \<open>["http://a"]\<close>. Counterexample to C2: the list that the function returns on that
  input is not the list of that one record. The body of the example holds the word
  References twice, and the pattern of line 80 takes the text up to \<open>Audit File\<close>.
\<close>

theorem end_to_end_counterexample:
  "fst (projr (parse_pdf_text_by_toc utf8 toc_item body_item)) \<noteq>
     [\<lparr>number = u ''1.1'', description = u ''Ensure Test Item'', type = u ''FAILED'',
       info = u ''Do X.'', solution = u ''Do Y.'', references = [u ''http://a''],
       auditFile = u ''cmd --check'', policyValue = u ''true''\<rparr>]"
  unfolding parse_item by (simp add: u_def)

text \<open>
  Claim C2, as amended: on the TOC text and the body of the example the function returns,
  whatever the encoding of standard output, exactly one record, with number 1.1,
  description \<open>Ensure Test Item\<close>, type FAILED, info \<open>Do X.\<close>, solution \<open>Do Y.\<close>,
  references \<open>["http://a References"]\<close>, auditFile \<open>cmd --check\<close> and policyValue
  \<open>true\<close>, and it prints nothing.
\<close>

theorem end_to_end_example:
  "parse_pdf_text_by_toc enc toc_item body_item =
     Inr ([\<lparr>number = u ''1.1'', description = u ''Ensure Test Item'', type = u ''FAILED'',
            info = u ''Do X.'', solution = u ''Do Y.'',
            references = [u ''http://a References''], auditFile = u ''cmd --check'',
            policyValue = u ''true''\<rparr>], [])"
  by (rule parse_item)

subsection \<open>C10: the references of a record\<close>

text \<open>
  Claim C10: for every input, the references of every record that the function returns are
  a list of exactly one string. The normalized body holds no line feed, so neither does a
  section nor the text of a group, and \<open>split('\n')\<close> gives one piece. The records
  returned are as many as the entries whose anchor occurs in the normalized body, the
  \<open>k\<close>-th record is that of the \<open>k\<close>-th such entry, and when the label References occurs
  nowhere in the section of that entry the list is \<open>["N/A"]\<close>.
\<close>

theorem references_one_string:
  fixes toc_text full_text :: pystr
  defines "es \<equiv> parse_toc toc_text" and "t \<equiv> normalize_text full_text"
  assumes "parse_pdf_text_by_toc enc toc_text full_text = Inr (data, out)"
  shows "list_all (\<lambda>r. length (references r) = 1) data
     \<and> length data = length (located es t)
     \<and> (\<forall>k a b. k < length data \<longrightarrow> section_bounds es t (located es t ! k) a b \<longrightarrow>
           \<not> occurs_from (slice t a b) (u ''References'') 0 \<longrightarrow>
           references (data ! k) = [u ''N/A''])"
proof (intro conjI allI impI)
  have nl: "10 \<notin> set t"
    unfolding t_def using clean_normalize[of full_text] by (simp add: clean_def spaced_no_nl)
  have d: "data = List.map_filter (section_record es t) [0..<length es]"
    unfolding es_def t_def using assms(3) by (rule parse_returns)
  have "length (references r) = 1" if "r \<in> set data" for r
  proof -
    from that obtain i where "section_record es t i = Some r"
      by (auto simp: d List.map_filter_def)
    with nl show ?thesis by (rule section_record_references)
  qed
  then show "list_all (\<lambda>r. length (references r) = 1) data" by (simp add: list_all_iff)
  show "length data = length (located es t)"
    unfolding es_def t_def using assms(3) by (rule parse_sections(1))
next
  fix k a b
  assume k: "k < length data" and sb: "section_bounds es t (located es t ! k) a b"
    and no: "\<not> occurs_from (slice t a b) (u ''References'') 0"
  from parse_sections(2)[OF assms(3) k] obtain a' b'
    where sb': "section_bounds es t (located es t ! k) a' b'"
      and ex: "extract_fields (es ! (located es t ! k)) (slice t a' b') = Inr (data ! k)"
    unfolding es_def t_def by blast
  from section_bounds_unique[OF sb sb'] ex
  have "extract_fields (es ! (located es t ! k)) (slice t a b) = Inr (data ! k)" by simp
  with no show "references (data ! k) = [u ''N/A'']" by (rule references_na)
qed

text \<open>
  Witness of C10: the entries 1.1 A, 1.2 B and 1.3 C on the body
  \<open>1.1 A Info x 1.3 C Info y\<close>, with standard output in UTF-8. The section of the second
  record, that of the third entry, runs from 13 to 25 and does not hold the label.
\<close>

theorem references_one_string_witness:
  "parse_pdf_text_by_toc utf8 toc_abc body_ac = Inr (records_ac, [warning @ u ''1.2 B''])
   \<and> list_all (\<lambda>r. length (references r) = 1) records_ac
   \<and> section_bounds (parse_toc toc_abc) (normalize_text body_ac)
       (located (parse_toc toc_abc) (normalize_text body_ac) ! 1) 13 25
   \<and> \<not> occurs_from (slice (normalize_text body_ac) 13 25) (u ''References'') 0
   \<and> references (records_ac ! 1) = [u ''N/A'']"
proof -
  have loc: "located (parse_toc toc_abc) (normalize_text body_ac) = [0, 2]"
    unfolding located_eq parse_toc_abc normalize_body_ac
    by (simp add: body_ac_def strs prog upt_rec)
  have "locate (parse_toc toc_abc) (normalize_text body_ac) 2 = Some (13, 25)"
    unfolding parse_toc_abc normalize_body_ac by (simp add: body_ac_def strs prog)
  then have "section_bounds (parse_toc toc_abc) (normalize_text body_ac) 2 13 25"
    by (simp only: locate_bounds)
  then have sb: "section_bounds (parse_toc toc_abc) (normalize_text body_ac)
       (located (parse_toc toc_abc) (normalize_text body_ac) ! 1) 13 25"
    by (simp add: loc)
  have "str_find (slice (normalize_text body_ac) 13 25) (u ''References'') 0 = None"
    unfolding normalize_body_ac by (simp add: body_ac_def strs)
  with str_find_None[OF le0]
  have no: "\<not> occurs_from (slice (normalize_text body_ac) 13 25) (u ''References'') 0"
    by blast
  have len: "1 < length records_ac" by (simp add: records_ac_def)
  from references_one_string[OF parse_abc_body_ac]
  have 1: "list_all (\<lambda>r. length (references r) = 1) records_ac"
    and 2: "\<And>k a b. k < length records_ac \<Longrightarrow>
           section_bounds (parse_toc toc_abc) (normalize_text body_ac)
             (located (parse_toc toc_abc) (normalize_text body_ac) ! k) a b \<Longrightarrow>
           \<not> occurs_from (slice (normalize_text body_ac) a b) (u ''References'') 0 \<Longrightarrow>
           references (records_ac ! k) = [u ''N/A'']"
    by blast+
  from 2[OF len sb no] 1 sb no parse_abc_body_ac show ?thesis by blast
qed

subsection \<open>C7: the lines that give an entry\<close>




subsection \<open>C9: the pattern without a bullet\<close>

text \<open>
  Claim C9 says that a table of contents without bullets gives the entries that it gives
  when every entry line is prefixed with a bullet. The pattern with the bullet asks for the
  number right after the bullet and the white space, and the pattern without it is tried
  only when the first finds nothing at all. Counterexample to C9: with the lines
  \<open>1.1 A ... 5\<close> and \<open>x 2.2 B ... 6\<close> the text without bullets gives two entries and the
  text with a bullet before each line gives the first only; and the line
  \<open>1.1 A ... 5 2.2 B ... 6\<close> gives two entries without a bullet and one after a bullet.
\<close>

theorem fallback_counterexample:
  "parse_toc toc_word_plain = [\<lparr>number = u ''1.1'', description = u ''A''\<rparr>,
      \<lparr>number = u ''2.2'', description = u ''B''\<rparr>]
   \<and> parse_toc toc_word_bullet = [\<lparr>number = u ''1.1'', description = u ''A''\<rparr>]
   \<and> parse_toc toc_pair_plain = [\<lparr>number = u ''1.1'', description = u ''A''\<rparr>,
      \<lparr>number = u ''2.2'', description = u ''B''\<rparr>]
   \<and> parse_toc toc_pair_bullet = [\<lparr>number = u ''1.1'', description = u ''A''\<rparr>]"
  by (simp add: toc_word_plain_def toc_word_bullet_def toc_pair_plain_def toc_pair_bullet_def
      pats strs prog)

text \<open>
  Claim C9, as amended: for every table of contents without a bullet whose lines are each
  one entry and nothing else (a number with at least one dot, white space, a title, white
  space or none, three dots or more, white space or none and a page number, every title on
  one line, neither beginning nor ending with white space, not ending with a dot and
  holding no run of three dots), the entries parsed are those parsed from the text in
  which every line is prefixed with a bullet and white space or none: the numbers and the
  titles of the lines, in their order.
\<close>

theorem fallback_same_entries:
  assumes "list_all well_formed ls" and "list_all (\<lambda>l. 8226 \<notin> set (ln_title l)) ls"
    and "list_all isspace sep"
  shows "parse_toc (join_lines (map line_text ls)) =
           parse_toc (join_lines (map (bullet_line sep) ls))
     \<and> parse_toc (join_lines (map line_text ls)) = map entry_of ls"
  using parse_toc_plain_lines[OF assms(1,2)] parse_toc_bullet_lines[OF assms(1,3)] by simp

text \<open>
  Witness of C9 as amended: the lines \<open>1.1 A ... 1\<close> and \<open>1.2 B ... 2\<close>, without
  bullets and each after a bullet and a space.
\<close>

theorem fallback_same_entries_witness:
  "list_all well_formed [line_a, line_b]
   \<and> list_all (\<lambda>l. 8226 \<notin> set (ln_title l)) [line_a, line_b]
   \<and> join_lines (map line_text [line_a, line_b]) = plain_ab
   \<and> parse_toc plain_ab = parse_toc toc_ab"
proof -
  have wf: "list_all well_formed [line_a, line_b]"
    by (simp add: well_formed_def line_a_def line_b_def u_def isspace_def isdecimal_def)
  have nb: "list_all (\<lambda>l. 8226 \<notin> set (ln_title l)) [line_a, line_b]"
    by (simp add: line_a_def line_b_def u_def)
  have sp: "list_all isspace (u '' '')" by (simp add: u_def isspace_def)
  have j: "join_lines (map (bullet_line (u '' '')) [line_a, line_b]) = toc_ab"
    by (simp add: bullet_line_def line_text_def ln_number_def ln_tail_def toc_ab_def
        line_a_def line_b_def u_def numeral_3_eq_3)
  have p: "join_lines (map line_text [line_a, line_b]) = plain_ab"
    by (simp add: line_text_def ln_number_def ln_tail_def plain_ab_def
        line_a_def line_b_def u_def numeral_3_eq_3)
  from fallback_same_entries[OF wf nb sp] wf nb j p show ?thesis by simp
qed

end
